theory Spec2Isabelle
  imports Complex_Main
begin

section \<open>JavaScript values\<close>

text \<open>
  The values that flow through the utilities as opaque data: option values, revisions,
  document bodies, store replies. Numbers that are only passed along are integers here.
\<close>

datatype jsval =
    Undefined
  | Null
  | Bool bool
  | Num int
  | Str string
  | Arr "jsval list"
  | Obj "(string \<times> jsval) list"

text \<open>Truthiness, as \<open>if (v)\<close>, \<open>!v\<close> and \<open>filter(identityFunction)\<close> read a value.\<close>

fun truthy :: "jsval \<Rightarrow> bool" where
  "truthy Undefined = False"
| "truthy Null = False"
| "truthy (Bool b) = b"
| "truthy (Num n) = (n \<noteq> 0)"
| "truthy (Str s) = (s \<noteq> [])"
| "truthy (Arr xs) = True"
| "truthy (Obj kvs) = True"

text \<open>A plain object read through \<open>prop in obj\<close> and \<open>obj[prop]\<close>.\<close>

type_synonym obj = "string \<rightharpoonup> jsval"

section \<open>Double arithmetic\<close>

text \<open>
  The numbers of JavaScript are IEEE 754 doubles, and every sum, difference and product is
  rounded to one. \<open>round_double\<close> rounds a real number to the nearest number with a
  significand of 53 bits, ties to the even significand. \<open>binade x\<close> is the exponent \<open>e\<close>
  with \<open>2\<^sup>e \<le> x < 2\<^sup>e\<^sup>+\<^sup>1\<close>, for a positive \<open>x\<close>. The exponent is not bounded:
  overflow and gradual underflow, far from the magnitudes of the timeouts below, are not
  modelled. \<open>round_int\<close> is the rounding of an integer, which is an integer again.
\<close>

definition round_half_even :: "real \<Rightarrow> int" where
  "round_half_even q =
     (let f = \<lfloor>q\<rfloor>; d = q - of_int f
      in if d < 1 / 2 then f else if 1 / 2 < d then f + 1 else if even f then f else f + 1)"

function binade :: "real \<Rightarrow> int" where
  "binade x =
     (if x \<le> 0 then 0
      else if 2 \<le> x then binade (x / 2) + 1
      else if x < 1 then binade (2 * x) - 1
      else 0)"
  by pat_completeness auto
termination
proof (relation "measure (\<lambda>x. if 1 \<le> x then nat \<lfloor>x\<rfloor> else nat \<lceil>1 / x\<rceil>)")
  show "wf (measure (\<lambda>x. if 1 \<le> x then nat \<lfloor>x\<rfloor> else nat \<lceil>1 / x\<rceil>))" by simp
next
  fix x :: real
  assume "\<not> x \<le> 0" "2 \<le> x"
  then have "\<lfloor>x / 2\<rfloor> < \<lfloor>x\<rfloor>" "0 < \<lfloor>x\<rfloor>" by linarith+
  then show "(x / 2, x) \<in> measure (\<lambda>x. if 1 \<le> x then nat \<lfloor>x\<rfloor> else nat \<lceil>1 / x\<rceil>)"
    using \<open>2 \<le> x\<close> by simp
next
  fix x :: real
  assume x: "\<not> x \<le> 0" "\<not> 2 \<le> x" "x < 1"
  show "(2 * x, x) \<in> measure (\<lambda>x. if 1 \<le> x then nat \<lfloor>x\<rfloor> else nat \<lceil>1 / x\<rceil>)"
  proof (cases "1 \<le> 2 * x")
    case True
    then have "\<lfloor>2 * x\<rfloor> = 1" using x by linarith
    moreover have "1 < 1 / x" using x by simp
    then have "2 \<le> \<lceil>1 / x\<rceil>" by linarith
    ultimately show ?thesis using True x by simp
  next
    case False
    define y where "y = 1 / (2 * x)"
    have y: "1 < y" using False x by (simp add: y_def)
    have "1 / x = 2 * y" using x by (simp add: y_def)
    moreover have "\<lceil>y\<rceil> < \<lceil>2 * y\<rceil>" using y by linarith
    moreover have "0 < \<lceil>2 * y\<rceil>" using y by linarith
    ultimately show ?thesis using False x by (simp add: y_def)
  qed
qed

definition round_double :: "real \<Rightarrow> real" where
  "round_double x =
     (if x = 0 then 0
      else let u = 2 powi (binade \<bar>x\<bar> - 52)
           in sgn x * of_int (round_half_even (\<bar>x\<bar> / u)) * u)"

definition round_int :: "int \<Rightarrow> int" where
  "round_int n = \<lfloor>round_double (real_of_int n)\<rfloor>"

text \<open>
  Rounding is monotone on the numbers from 0 on, and leaves the integers from 0 to
  \<open>2\<^sup>5\<^sup>3\<close> as they are.
\<close>

declare binade.simps [simp del]

lemma binade_bounds:
  "0 < x \<Longrightarrow> 2 powi binade x \<le> x \<and> x < 2 powi (binade x + 1)"
proof (induction x rule: binade.induct)
  case (1 x)
  consider (big) "2 \<le> x" | (small) "x < 1" | (unit) "1 \<le> x" "x < 2"
    by linarith
  then show ?case
  proof cases
    case big
    have b: "binade x = binade (x / 2) + 1"
      using big 1(3) by (subst binade.simps) simp
    have "2 powi binade (x / 2) \<le> x / 2 \<and> x / 2 < 2 powi (binade (x / 2) + 1)"
      using 1(1) big 1(3) by simp
    then show ?thesis
      unfolding b by (simp add: power_int_add)
  next
    case small
    have b: "binade x = binade (2 * x) - 1"
      using small 1(3) by (subst binade.simps) simp
    have "2 powi binade (2 * x) \<le> 2 * x \<and> 2 * x < 2 powi (binade (2 * x) + 1)"
      using 1(2) small 1(3) by simp
    then show ?thesis
      unfolding b by (simp add: power_int_add power_int_diff)
  next
    case unit
    have b: "binade x = 0"
      using unit 1(3) by (subst binade.simps) simp
    show ?thesis
      unfolding b using unit by simp
  qed
qed

lemma power2_less_imp_less:
  assumes "(2::real) powi m < 2 powi n"
  shows "m < n"
proof (rule ccontr)
  assume "\<not> m < n"
  then have "(2::real) powi n \<le> 2 powi m"
    by (intro power_int_increasing) simp_all
  then show False using assms by simp
qed

lemma binade_mono:
  assumes "0 < x" "x \<le> y"
  shows "binade x \<le> binade y"
proof -
  have "2 powi binade x \<le> x" using binade_bounds [of x] assms by simp
  also have "x \<le> y" by fact
  also have "y < 2 powi (binade y + 1)" using binade_bounds [of y] assms by simp
  finally have "(2::real) powi binade x < 2 powi (binade y + 1)" .
  then have "binade x < binade y + 1"
    by (rule power2_less_imp_less)
  then show ?thesis by simp
qed

lemma round_half_even_of_int: "round_half_even (of_int k) = k"
  by (simp add: round_half_even_def)

lemma round_half_even_floor:
  "\<lfloor>q\<rfloor> \<le> round_half_even q \<and> round_half_even q \<le> \<lfloor>q\<rfloor> + 1"
  by (simp add: round_half_even_def Let_def)

lemma round_half_even_mono:
  assumes "q \<le> q'"
  shows "round_half_even q \<le> round_half_even q'"
proof (cases "\<lfloor>q\<rfloor> < \<lfloor>q'\<rfloor>")
  case True
  have "round_half_even q \<le> \<lfloor>q\<rfloor> + 1" using round_half_even_floor [of q] by simp
  also have "\<dots> \<le> \<lfloor>q'\<rfloor>" using True by simp
  also have "\<dots> \<le> round_half_even q'" using round_half_even_floor [of q'] by simp
  finally show ?thesis .
next
  case False
  then have eq: "\<lfloor>q'\<rfloor> = \<lfloor>q\<rfloor>" using assms floor_mono [of q q'] by simp
  show ?thesis
    using assms unfolding round_half_even_def Let_def eq by auto
qed

lemma round_double_scaled:
  assumes "0 < x"
  shows "round_double x =
    of_int (round_half_even (x / 2 powi (binade x - 52))) * 2 powi (binade x - 52)"
  using assms by (simp add: round_double_def Let_def)

lemma round_double_binade:
  assumes "0 < x"
  shows "2 powi binade x \<le> round_double x \<and> round_double x \<le> 2 powi (binade x + 1)"
proof -
  define e where "e = binade x"
  define u :: real where "u = 2 powi (e - 52)"
  have u: "0 < u" by (simp add: u_def)
  have lo: "2 powi e = 2 ^ 52 * u" and hi: "2 powi (e + 1) = 2 ^ 53 * u"
    by (simp_all add: u_def power_int_diff power_int_add)
  have b: "2 powi e \<le> x" "x < 2 powi (e + 1)"
    using binade_bounds [OF assms] by (simp_all add: e_def)
  have "of_int (2 ^ 52) \<le> x / u" using b(1) u unfolding lo by (simp add: pos_le_divide_eq)
  then have "round_half_even (of_int (2 ^ 52)) \<le> round_half_even (x / u)"
    by (rule round_half_even_mono)
  then have l: "2 ^ 52 \<le> round_half_even (x / u)"
    unfolding round_half_even_of_int .
  have "x / u \<le> of_int (2 ^ 53)" using b(2) u unfolding hi by (simp add: pos_divide_le_eq)
  then have "round_half_even (x / u) \<le> round_half_even (of_int (2 ^ 53))"
    by (rule round_half_even_mono)
  then have h: "round_half_even (x / u) \<le> 2 ^ 53"
    unfolding round_half_even_of_int .
  have r: "round_double x = of_int (round_half_even (x / u)) * u"
    using round_double_scaled [OF assms] by (simp add: u_def e_def)
  have "(2 ^ 52 :: real) \<le> of_int (round_half_even (x / u))"
    using l of_int_le_iff [of "2 ^ 52" "round_half_even (x / u)", where ?'a = real] by simp
  then have "2 ^ 52 * u \<le> of_int (round_half_even (x / u)) * u"
    using u by (intro mult_right_mono) simp_all
  moreover have "of_int (round_half_even (x / u)) \<le> (2 ^ 53 :: real)"
    using h of_int_le_iff [of "round_half_even (x / u)" "2 ^ 53", where ?'a = real] by simp
  then have "of_int (round_half_even (x / u)) * u \<le> 2 ^ 53 * u"
    using u by (intro mult_right_mono) simp_all
  ultimately show ?thesis
    unfolding r e_def [symmetric] lo hi by simp
qed

lemma round_double_mono_pos:
  assumes "0 < x" "x \<le> y"
  shows "round_double x \<le> round_double y"
proof (cases "binade x = binade y")
  case True
  define u :: real where "u = 2 powi (binade y - 52)"
  have u: "0 < u" by (simp add: u_def)
  have "x / u \<le> y / u" using assms u by (simp add: divide_right_mono)
  then have "round_half_even (x / u) \<le> round_half_even (y / u)"
    by (rule round_half_even_mono)
  then have "of_int (round_half_even (x / u)) * u \<le> of_int (round_half_even (y / u)) * u"
    using u by simp
  then show ?thesis
    using assms by (simp add: round_double_scaled True u_def)
next
  case False
  then have lt: "binade x + 1 \<le> binade y"
    using binade_mono [OF assms] by simp
  have "round_double x \<le> 2 powi (binade x + 1)"
    using round_double_binade [of x] assms by simp
  also have "\<dots> \<le> 2 powi binade y"
    using lt by (simp add: power_int_increasing)
  also have "\<dots> \<le> round_double y"
    using round_double_binade [of y] assms by simp
  finally show ?thesis .
qed

lemma round_double_nonneg:
  assumes "0 \<le> x"
  shows "0 \<le> round_double x"
proof (cases "x = 0")
  case True
  then show ?thesis by (simp add: round_double_def)
next
  case False
  then have x: "0 < x" using assms by simp
  have "(0::real) \<le> 2 powi binade x" by simp
  also have "\<dots> \<le> round_double x" using round_double_binade [OF x] by simp
  finally show ?thesis .
qed

lemma round_double_mono:
  assumes "0 \<le> x" "x \<le> y"
  shows "round_double x \<le> round_double y"
proof (cases "x = 0")
  case True
  then show ?thesis
    using round_double_nonneg [of y] assms by (simp add: round_double_def)
next
  case False
  then show ?thesis
    using round_double_mono_pos [of x y] assms by simp
qed

lemma round_double_of_int:
  assumes "0 \<le> k" "k < 2 ^ 53"
  shows "round_double (of_int k) = of_int k"
proof (cases "k = 0")
  case True
  then show ?thesis by (simp add: round_double_def)
next
  case False
  then have k: "0 < (of_int k :: real)" using assms by simp
  define e where "e = binade (of_int k)"
  have "2 powi e \<le> (of_int k :: real)"
    using binade_bounds [OF k] by (simp add: e_def)
  also have "(of_int k :: real) < 2 powi 53"
    using assms(2) by (simp add: of_int_less_iff [symmetric] del: of_int_less_iff)
  finally have "e < 53"
    by (rule power2_less_imp_less)
  define n where "n = nat (52 - e)"
  have n: "52 - e = int n" using \<open>e < 53\<close> by (simp add: n_def)
  have u: "(2::real) powi (e - 52) = 1 / 2 ^ n"
  proof -
    have m: "e - 52 = - int n" using n by simp
    show ?thesis unfolding m by (simp add: power_int_minus field_simps)
  qed
  have q: "of_int k / (2::real) powi (e - 52) = of_int (k * 2 ^ n)"
    unfolding u by simp
  show ?thesis
    unfolding round_double_scaled [OF k] e_def [symmetric] q round_half_even_of_int
    unfolding u by simp
qed

lemma round_int_id: "0 \<le> k \<Longrightarrow> k < 2 ^ 53 \<Longrightarrow> round_int k = k"
  by (simp add: round_int_def round_double_of_int)

lemma round_int_mono: "0 \<le> a \<Longrightarrow> a \<le> b \<Longrightarrow> round_int a \<le> round_int b"
  unfolding round_int_def by (intro floor_mono round_double_mono) simp_all

section \<open>The backoff generator: \<open>randomNumber\<close> and \<open>defaultBackOff\<close>\<close>

text \<open>
  A number argument is unset (\<open>None\<close>: \<open>undefined\<close>, whose \<open>parseInt\<close> is \<open>NaN\<close>) or a
  whole number of magnitude below \<open>10\<^sup>2\<^sup>1\<close>. \<open>parseInt(x, 10)\<close> reads the decimal text of
  its argument; the text of such a number is its digits, and \<open>parseInt\<close> gives the number
  back. From \<open>10\<^sup>2\<^sup>1\<close> on the text of a number is in exponent notation, of which
  \<open>parseInt\<close> reads the first digit only: those arguments are outside the type \<open>whole\<close>.
  \<open>Math.random()\<close> is the parameter \<open>ratio\<close>, a double in \<open>[0, 1)\<close>.
\<close>

typedef whole = "{n :: int. \<bar>n\<bar> < 10 ^ 21}"
  morphisms value_of Whole
  by (rule exI [of _ 0]) simp

definition parseInt10 :: "whole option \<Rightarrow> int option" where
  "parseInt10 x = map_option value_of x"

text \<open>The 32-bit operators: \<open>ToInt32\<close>, \<open>x << 1\<close>, \<open>x >> 1\<close> and \<open>~~v\<close>.\<close>

definition toInt32 :: "int \<Rightarrow> int" where
  "toInt32 x = (x + 2 ^ 31) mod 2 ^ 32 - 2 ^ 31"

definition shl1 :: "int \<Rightarrow> int" where
  "shl1 x = toInt32 (2 * toInt32 x)"

definition shr1 :: "int \<Rightarrow> int" where
  "shr1 x = toInt32 x div 2"

definition js_trunc :: "real \<Rightarrow> int" where
  "js_trunc v = (if 0 \<le> v then \<lfloor>v\<rfloor> else \<lceil>v\<rceil>)"

definition tilde_tilde :: "real \<Rightarrow> int" where
  "tilde_tilde v = toInt32 (js_trunc v)"

text \<open>
  \<open>randomNumber\<close> in four parts: the minimum after \<open>parseInt(min, 10) || 0\<close>, the
  maximum after the first conditional (doubled, or one past the given maximum), the ceiling
  \<open>maxTimeout\<close>, and the draw \<open>~~(range * ratio + min)\<close> from the window that is left.
\<close>

definition parsed_min :: "whole option \<Rightarrow> int" where
  "parsed_min min0 = (case parseInt10 min0 of None \<Rightarrow> 0 | Some n \<Rightarrow> n)"

definition computed_max :: "whole option \<Rightarrow> whole option \<Rightarrow> int" where
  "computed_max min0 max0 =
     (let min1 = parsed_min min0
      in case parseInt10 max0 of
           None \<Rightarrow> shl1 (if min1 = 0 then 1 else min1)
         | Some m \<Rightarrow> if m \<le> min1 then shl1 (if min1 = 0 then 1 else min1) else round_int (m + 1))"

definition draw :: "int \<Rightarrow> int \<Rightarrow> real \<Rightarrow> int" where
  "draw min2 max2 ratio =
     (let range = round_int (max2 - min2)
      in tilde_tilde (round_double (round_double (real_of_int range * ratio) + real_of_int min2)))"

definition randomNumber :: "whole option \<Rightarrow> whole option \<Rightarrow> real \<Rightarrow> int" where
  "randomNumber min0 max0 ratio =
     (let maxTimeout = 600000;
          min1 = parsed_min min0;
          max1 = computed_max min0 max0;
          min2 = (if max1 > maxTimeout then shr1 maxTimeout else min1);
          max2 = (if max1 > maxTimeout then maxTimeout else max1)
      in draw min2 max2 ratio)"

text \<open>\<open>!min\<close> holds for an unset minimum and for 0.\<close>

definition defaultBackOff :: "whole option \<Rightarrow> real \<Rightarrow> int" where
  "defaultBackOff min0 ratio =
     (let max0 = (if (case min0 of None \<Rightarrow> True | Some m \<Rightarrow> value_of m = 0) then Whole 2000 else Whole 0)
      in randomNumber min0 (Some max0) ratio)"

subsection \<open>The draw stays inside its window\<close>

lemma value_of_Whole: "\<bar>n\<bar> < 10 ^ 21 \<Longrightarrow> value_of (Whole n) = n"
  by (simp add: Whole_inverse)

lemma toInt32_id: "- (2 ^ 31) \<le> x \<Longrightarrow> x < 2 ^ 31 \<Longrightarrow> toInt32 x = x"
  by (simp add: toInt32_def)

lemma shl1_small: "- (2 ^ 30) \<le> x \<Longrightarrow> x < 2 ^ 30 \<Longrightarrow> shl1 x = 2 * x"
  by (simp add: shl1_def toInt32_id)

lemma shl1_one: "shl1 1 = 2"
  by code_simp

lemma shr1_maxTimeout: "shr1 600000 = 300000"
  by code_simp

text \<open>The number that \<open>~~\<close> truncates, for a window whose width is exact.\<close>

definition drawn :: "int \<Rightarrow> int \<Rightarrow> real \<Rightarrow> real" where
  "drawn lo hi ratio = round_double (round_double (real_of_int (hi - lo) * ratio) + real_of_int lo)"

lemma drawn_mono:
  assumes "0 \<le> r" "r \<le> r'" "0 \<le> lo" "lo \<le> hi"
  shows "drawn lo hi r \<le> drawn lo hi r'"
proof -
  have a: "0 \<le> real_of_int (hi - lo) * r" using assms by simp
  have "real_of_int (hi - lo) * r \<le> real_of_int (hi - lo) * r'"
    using assms by (intro mult_left_mono) simp_all
  then have b: "round_double (real_of_int (hi - lo) * r) \<le> round_double (real_of_int (hi - lo) * r')"
    using a by (intro round_double_mono)
  have c: "0 \<le> round_double (real_of_int (hi - lo) * r) + real_of_int lo"
    using round_double_nonneg [OF a] assms by simp
  show ?thesis
    unfolding drawn_def using b c by (intro round_double_mono) simp_all
qed

lemma drawn_bounds:
  assumes "0 \<le> r" "r \<le> 1" "0 \<le> lo" "lo \<le> hi" "hi < 2 ^ 53"
  shows "real_of_int lo \<le> drawn lo hi r \<and> drawn lo hi r \<le> real_of_int hi"
proof -
  have z: "drawn lo hi 0 = real_of_int lo"
    using assms by (simp add: drawn_def round_double_of_int [of 0, simplified] round_double_of_int)
  have "round_double (real_of_int (hi - lo)) = real_of_int (hi - lo)"
    using assms by (intro round_double_of_int) simp_all
  moreover have "round_double (real_of_int (hi - lo) + real_of_int lo) = real_of_int hi"
    using round_double_of_int [of hi] assms by simp
  ultimately have o: "drawn lo hi 1 = real_of_int hi"
    by (simp add: drawn_def)
  show ?thesis
    using drawn_mono [of 0 r lo hi] drawn_mono [of r 1 lo hi] assms unfolding z o by simp
qed

lemma draw_drawn:
  assumes "0 \<le> lo" "lo \<le> hi" "hi < 2 ^ 53"
  shows "draw lo hi r = tilde_tilde (drawn lo hi r)"
  using assms by (simp add: draw_def drawn_def round_int_id Let_def)

lemma tilde_tilde_floor:
  assumes "0 \<le> v" "v < 2 ^ 31"
  shows "tilde_tilde v = \<lfloor>v\<rfloor>"
proof -
  have "0 \<le> \<lfloor>v\<rfloor>" "\<lfloor>v\<rfloor> < 2 ^ 31" using assms by (simp_all add: floor_less_iff)
  then have "toInt32 \<lfloor>v\<rfloor> = \<lfloor>v\<rfloor>" by (intro toInt32_id) simp_all
  then show ?thesis using assms by (simp add: tilde_tilde_def js_trunc_def)
qed

lemma draw_in_window:
  assumes r: "0 \<le> ratio" "ratio \<le> 1" and w: "0 \<le> lo" "lo \<le> hi" "hi < 2 ^ 31"
  shows "lo \<le> draw lo hi ratio \<and> draw lo hi ratio \<le> hi"
proof -
  have h: "hi < 2 ^ 53" using w by simp
  have b: "real_of_int lo \<le> drawn lo hi ratio" "drawn lo hi ratio \<le> real_of_int hi"
    using drawn_bounds [OF r w(1,2) h] by simp_all
  have "real_of_int hi \<le> 2 ^ 31 - 1"
    using w(3) of_int_le_iff [of hi "2 ^ 31 - 1", where ?'a = real] by simp
  then have "drawn lo hi ratio < 2 ^ 31" using b by simp
  moreover have "0 \<le> drawn lo hi ratio" using b w by simp
  ultimately have t: "draw lo hi ratio = \<lfloor>drawn lo hi ratio\<rfloor>"
    by (simp add: draw_drawn [OF w(1,2) h] tilde_tilde_floor)
  have "lo \<le> \<lfloor>drawn lo hi ratio\<rfloor>" using b by (simp add: le_floor_iff)
  moreover have "\<lfloor>drawn lo hi ratio\<rfloor> \<le> hi" using b by (simp add: floor_le_iff)
  ultimately show ?thesis unfolding t by simp
qed

lemma draw_from_zero:
  assumes r: "0 \<le> ratio" "ratio \<le> 1 - 1 / 2 ^ 53"
    and top: "drawn 0 hi (1 - 1 / 2 ^ 53) < real_of_int hi" and w: "0 < hi" "hi < 2 ^ 31"
  shows "0 \<le> draw 0 hi ratio \<and> draw 0 hi ratio < hi"
proof -
  have r1: "ratio \<le> 1" using r by simp
  have "drawn 0 hi ratio \<le> drawn 0 hi (1 - 1 / 2 ^ 53)"
    using r w by (intro drawn_mono) simp_all
  then have lt: "drawn 0 hi ratio < real_of_int hi" using top by simp
  have h: "hi < 2 ^ 53" using w by simp
  have z: "(0::int) \<le> 0" "0 \<le> hi" using w by simp_all
  have b: "0 \<le> drawn 0 hi ratio"
    using drawn_bounds [OF r(1) r1 z h] by simp
  have "real_of_int hi \<le> 2 ^ 31"
    using w(2) of_int_le_iff [of hi "2 ^ 31", where ?'a = real] by simp
  then have "drawn 0 hi ratio < 2 ^ 31" using lt by simp
  then have t: "draw 0 hi ratio = \<lfloor>drawn 0 hi ratio\<rfloor>"
    using b by (simp add: draw_drawn [OF z h] tilde_tilde_floor)
  have "\<lfloor>drawn 0 hi ratio\<rfloor> < hi" using lt by (simp add: floor_less_iff)
  moreover have "0 \<le> \<lfloor>drawn 0 hi ratio\<rfloor>" using b by simp
  ultimately show ?thesis unfolding t by simp
qed

lemma drawn_top_2001: "drawn 0 2001 (1 - 1 / 2 ^ 53) < real_of_int 2001"
  by code_simp

lemma drawn_top_2: "drawn 0 2 (1 - 1 / 2 ^ 53) < real_of_int 2"
  by code_simp

lemma parsed_min_Whole: "\<bar>m\<bar> < 10 ^ 21 \<Longrightarrow> parsed_min (Some (Whole m)) = m"
  by (simp add: parsed_min_def parseInt10_def value_of_Whole)

lemma parsed_min_None: "parsed_min None = 0"
  by (simp add: parsed_min_def parseInt10_def)

lemma computed_max_doubled:
  assumes "0 < m" "m < 2 ^ 30"
  shows "computed_max (Some (Whole m)) (Some (Whole 0)) = 2 * m"
    and "computed_max (Some (Whole m)) None = 2 * m"
proof -
  have b: "\<bar>m\<bar> < 10 ^ 21" using assms by simp
  show "computed_max (Some (Whole m)) (Some (Whole 0)) = 2 * m"
    using assms
    by (simp add: computed_max_def parsed_min_Whole [OF b] parseInt10_def value_of_Whole shl1_small)
  show "computed_max (Some (Whole m)) None = 2 * m"
    using assms
    by (simp add: computed_max_def parsed_min_Whole [OF b] parseInt10_def shl1_small)
qed

lemma randomNumber_doubled:
  assumes "0 < m" "m < 2 ^ 30"
  shows "randomNumber (Some (Whole m)) (Some (Whole 0)) ratio =
     (if 2 * m > 600000 then draw 300000 600000 ratio else draw m (2 * m) ratio)"
    and "randomNumber (Some (Whole m)) None ratio =
     (if 2 * m > 600000 then draw 300000 600000 ratio else draw m (2 * m) ratio)"
proof -
  have b: "\<bar>m\<bar> < 10 ^ 21" using assms by simp
  show "randomNumber (Some (Whole m)) (Some (Whole 0)) ratio =
     (if 2 * m > 600000 then draw 300000 600000 ratio else draw m (2 * m) ratio)"
    by (simp add: randomNumber_def computed_max_doubled [OF assms] parsed_min_Whole [OF b]
          shr1_maxTimeout Let_def)
  show "randomNumber (Some (Whole m)) None ratio =
     (if 2 * m > 600000 then draw 300000 600000 ratio else draw m (2 * m) ratio)"
    by (simp add: randomNumber_def computed_max_doubled [OF assms] parsed_min_Whole [OF b]
          shr1_maxTimeout Let_def)
qed

lemma defaultBackOff_positive:
  assumes "m \<noteq> 0" "\<bar>m\<bar> < 10 ^ 21"
  shows "defaultBackOff (Some (Whole m)) ratio = randomNumber (Some (Whole m)) (Some (Whole 0)) ratio"
  using assms by (simp add: defaultBackOff_def value_of_Whole)

lemma defaultBackOff_unset:
  assumes "min0 = None \<or> min0 = Some (Whole 0)"
  shows "defaultBackOff min0 ratio = draw 0 2001 ratio"
proof -
  have p: "parsed_min min0 = 0"
    using assms by (auto simp add: parsed_min_None parsed_min_Whole)
  have d: "defaultBackOff min0 ratio = randomNumber min0 (Some (Whole 2000)) ratio"
    using assms by (auto simp add: defaultBackOff_def value_of_Whole)
  have "round_int 2001 = 2001" by (intro round_int_id) simp_all
  then have c: "computed_max min0 (Some (Whole 2000)) = 2001"
    by (simp add: computed_max_def p parseInt10_def value_of_Whole)
  show ?thesis
    unfolding d by (simp add: randomNumber_def p c Let_def)
qed

lemma randomNumber_unset:
  assumes "min0 = None \<or> min0 = Some (Whole 0)"
  shows "randomNumber min0 None ratio = draw 0 2 ratio"
proof -
  have p: "parsed_min min0 = 0"
    using assms by (auto simp add: parsed_min_None parsed_min_Whole)
  have c: "computed_max min0 None = 2"
    by (simp add: computed_max_def p parseInt10_def shl1_one)
  show ?thesis
    by (simp add: randomNumber_def p c Let_def)
qed

text \<open>
  C6 (amended). \<open>Math.random()\<close> is a double in \<open>[0, 1)\<close>, so at most \<open>1 - 2\<^sup>-\<^sup>5\<^sup>3\<close>.
  Called with only a minimum \<open>M\<close>, the generator returns an integer in \<open>[M, 2M]\<close> when
  \<open>0 < M \<le> 300000\<close>; when \<open>300000 < M < 2\<^sup>3\<^sup>0\<close> the doubled maximum exceeds the ceiling
  and the result lies in \<open>[300000, 600000]\<close>. This holds for \<open>defaultBackOff\<close> and for
  \<open>randomNumber\<close> without a maximum, which agree there. When the minimum is 0 or unset,
  \<open>defaultBackOff\<close> passes the default maximum 2000 and the result lies in \<open>[0, 2001)\<close>;
  \<open>randomNumber\<close> without a maximum gives a result in \<open>[0, 2)\<close>. In particular a minimum
  of 1000 gives a value in \<open>[1000, 2001)\<close>.
\<close>

theorem defaultBackOff_min_only:
  assumes "0 \<le> ratio" and "ratio \<le> 1 - 1 / 2 ^ 53"
  shows "(0 < M \<and> M \<le> 300000 \<longrightarrow>
            M \<le> defaultBackOff (Some (Whole M)) ratio
          \<and> defaultBackOff (Some (Whole M)) ratio \<le> 2 * M)
       \<and> (300000 < M \<and> M < 2 ^ 30 \<longrightarrow>
            300000 \<le> defaultBackOff (Some (Whole M)) ratio
          \<and> defaultBackOff (Some (Whole M)) ratio \<le> 600000)
       \<and> (0 < M \<and> M < 2 ^ 30 \<longrightarrow>
            randomNumber (Some (Whole M)) None ratio = defaultBackOff (Some (Whole M)) ratio)
       \<and> 0 \<le> defaultBackOff None ratio \<and> defaultBackOff None ratio < 2001
       \<and> 0 \<le> defaultBackOff (Some (Whole 0)) ratio \<and> defaultBackOff (Some (Whole 0)) ratio < 2001
       \<and> 0 \<le> randomNumber None None ratio \<and> randomNumber None None ratio < 2
       \<and> 0 \<le> randomNumber (Some (Whole 0)) None ratio \<and> randomNumber (Some (Whole 0)) None ratio < 2
       \<and> 1000 \<le> defaultBackOff (Some (Whole 1000)) ratio
       \<and> defaultBackOff (Some (Whole 1000)) ratio < 2001"
proof -
  have r1: "ratio \<le> 1" using assms(2) by simp
  have form: "defaultBackOff (Some (Whole M)) ratio =
      (if 2 * M > 600000 then draw 300000 600000 ratio else draw M (2 * M) ratio)"
    and same: "randomNumber (Some (Whole M)) None ratio = defaultBackOff (Some (Whole M)) ratio"
    if "0 < M" "M < 2 ^ 30" for M
  proof -
    have b: "M \<noteq> 0" "\<bar>M\<bar> < 10 ^ 21" using that by simp_all
    show "defaultBackOff (Some (Whole M)) ratio =
        (if 2 * M > 600000 then draw 300000 600000 ratio else draw M (2 * M) ratio)"
      unfolding defaultBackOff_positive [OF b] randomNumber_doubled(1) [OF that] ..
    show "randomNumber (Some (Whole M)) None ratio = defaultBackOff (Some (Whole M)) ratio"
      unfolding defaultBackOff_positive [OF b] randomNumber_doubled [OF that] ..
  qed
  have small: "M \<le> defaultBackOff (Some (Whole M)) ratio
      \<and> defaultBackOff (Some (Whole M)) ratio \<le> 2 * M"
    if "0 < M" "M \<le> 300000" for M
  proof -
    have lt: "M < 2 ^ 30" using that by simp
    have "defaultBackOff (Some (Whole M)) ratio = draw M (2 * M) ratio"
      using form [OF that(1) lt] that by simp
    moreover have "M \<le> draw M (2 * M) ratio \<and> draw M (2 * M) ratio \<le> 2 * M"
      using that assms(1) r1 by (intro draw_in_window) simp_all
    ultimately show ?thesis by simp
  qed
  have capped: "300000 \<le> defaultBackOff (Some (Whole M)) ratio
      \<and> defaultBackOff (Some (Whole M)) ratio \<le> 600000"
    if "300000 < M" "M < 2 ^ 30" for M
  proof -
    have "defaultBackOff (Some (Whole M)) ratio = draw 300000 600000 ratio"
      using form [OF _ that(2)] that by simp
    moreover have "300000 \<le> draw 300000 600000 ratio \<and> draw 300000 600000 ratio \<le> 600000"
      using assms(1) r1 by (intro draw_in_window) simp_all
    ultimately show ?thesis by simp
  qed
  have unset: "0 \<le> defaultBackOff m0 ratio \<and> defaultBackOff m0 ratio < 2001"
    if "m0 = None \<or> m0 = Some (Whole 0)" for m0
    unfolding defaultBackOff_unset [OF that]
    using assms drawn_top_2001 by (intro draw_from_zero) simp_all
  have direct: "0 \<le> randomNumber m0 None ratio \<and> randomNumber m0 None ratio < 2"
    if "m0 = None \<or> m0 = Some (Whole 0)" for m0
    unfolding randomNumber_unset [OF that]
    using assms drawn_top_2 by (intro draw_from_zero) simp_all
  have e: "1000 \<le> defaultBackOff (Some (Whole 1000)) ratio
      \<and> defaultBackOff (Some (Whole 1000)) ratio < 2001"
    using small [of 1000] by simp
  show ?thesis
    using small [of M] capped [of M] same [of M] unset [of None] unset [of "Some (Whole 0)"]
      direct [of None] direct [of "Some (Whole 0)"] e
    by blast
qed

text \<open>The theorem at the minimums 1000 and 400000 with the draw \<open>1/2\<close>.\<close>

theorem defaultBackOff_min_only_witness:
  "(0::real) \<le> 1 / 2 \<and> (1 / 2 :: real) \<le> 1 - 1 / 2 ^ 53
   \<and> (0::int) < 1000 \<and> (1000::int) \<le> 300000
   \<and> 1000 \<le> defaultBackOff (Some (Whole 1000)) (1 / 2)
   \<and> defaultBackOff (Some (Whole 1000)) (1 / 2) \<le> 2 * 1000
   \<and> defaultBackOff (Some (Whole 1000)) (1 / 2) = 1500
   \<and> randomNumber (Some (Whole 1000)) None (1 / 2) = 1500
   \<and> (300000::int) < 400000 \<and> (400000::int) < 2 ^ 30
   \<and> 300000 \<le> defaultBackOff (Some (Whole 400000)) (1 / 2)
   \<and> defaultBackOff (Some (Whole 400000)) (1 / 2) \<le> 600000
   \<and> defaultBackOff (Some (Whole 400000)) (1 / 2) = 450000"
proof -
  have r: "(0::real) \<le> 1 / 2" "(1 / 2 :: real) \<le> 1 - 1 / 2 ^ 53" by simp_all
  have "draw 1000 (2 * 1000) (1 / 2) = 1500" by code_simp
  then have a: "defaultBackOff (Some (Whole 1000)) (1 / 2) = 1500"
    by (simp add: defaultBackOff_positive randomNumber_doubled)
  have "draw 300000 600000 (1 / 2) = 450000" by code_simp
  then have b: "defaultBackOff (Some (Whole 400000)) (1 / 2) = 450000"
    by (simp add: defaultBackOff_positive randomNumber_doubled)
  show ?thesis
    using defaultBackOff_min_only [OF r, of 1000] defaultBackOff_min_only [OF r, of 400000] a b
    by simp
qed

text \<open>
  C6 as stated fails: a minimum of 400000 can give 300000, below the minimum, through
  \<open>defaultBackOff\<close> and through \<open>randomNumber\<close> without a maximum; and
  \<open>defaultBackOff\<close> with an unset minimum can give 1500, outside \<open>[0, 2)\<close>.
\<close>

theorem defaultBackOff_min_only_counterexample:
  "\<not> (400000 \<le> defaultBackOff (Some (Whole 400000)) 0
        \<and> defaultBackOff (Some (Whole 400000)) 0 \<le> 2 * 400000)
   \<and> \<not> (400000 \<le> randomNumber (Some (Whole 400000)) None 0
          \<and> randomNumber (Some (Whole 400000)) None 0 \<le> 2 * 400000)
   \<and> \<not> (0 \<le> defaultBackOff None (3 / 4) \<and> defaultBackOff None (3 / 4) < 2)"
proof -
  have d: "draw 300000 600000 0 = 300000" by code_simp
  have a: "defaultBackOff (Some (Whole 400000)) 0 = 300000"
    using d by (simp add: defaultBackOff_positive randomNumber_doubled)
  have c: "randomNumber (Some (Whole 400000)) None 0 = 300000"
    using d by (simp add: randomNumber_doubled)
  have "draw 0 2001 (3 / 4) = 1500" by code_simp
  then have b: "defaultBackOff None (3 / 4) = 1500"
    by (simp add: defaultBackOff_unset)
  show ?thesis unfolding a b c by simp
qed

text \<open>
  The closed ends of the intervals are reached: at the largest and the second largest
  double below 1 the sum \<open>range * ratio + min\<close> rounds up to the maximum of the window.
\<close>

lemma backoff_reaches_maximum:
  "defaultBackOff (Some (Whole 1000)) (1 - 1 / 2 ^ 53) = 2000
   \<and> defaultBackOff (Some (Whole 5)) (1 - 1 / 2 ^ 52) = 10
   \<and> defaultBackOff (Some (Whole 400000)) (1 - 1 / 2 ^ 52) = 600000"
proof -
  have "draw 1000 (2 * 1000) (1 - 1 / 2 ^ 53) = 2000" by code_simp
  then have a: "defaultBackOff (Some (Whole 1000)) (1 - 1 / 2 ^ 53) = 2000"
    by (simp add: defaultBackOff_positive randomNumber_doubled)
  have "draw 5 (2 * 5) (1 - 1 / 2 ^ 52) = 10" by code_simp
  then have b: "defaultBackOff (Some (Whole 5)) (1 - 1 / 2 ^ 52) = 10"
    by (simp add: defaultBackOff_positive randomNumber_doubled)
  have "draw 300000 600000 (1 - 1 / 2 ^ 52) = 600000" by code_simp
  then have c: "defaultBackOff (Some (Whole 400000)) (1 - 1 / 2 ^ 52) = 600000"
    by (simp add: defaultBackOff_positive randomNumber_doubled)
  show ?thesis using a b c by simp
qed

text \<open>
  C7 (amended). For a minimum that is unset or in \<open>[0, 2\<^sup>3\<^sup>0)\<close> and a maximum that is unset
  or any integer of the model, the result lies in \<open>[0, 600000]\<close>, and whenever the computed
  maximum of the window exceeds the ceiling of 600000 the draw is made from
  \<open>[300000, 600000]\<close>.
\<close>

theorem backoff_within_ceiling:
  assumes r: "0 \<le> ratio" "ratio < 1"
    and m: "0 \<le> parsed_min min0" "parsed_min min0 < 2 ^ 30"
  shows "0 \<le> randomNumber min0 max0 ratio \<and> randomNumber min0 max0 ratio \<le> 600000
       \<and> 0 \<le> defaultBackOff min0 ratio \<and> defaultBackOff min0 ratio \<le> 600000
       \<and> (600000 < computed_max min0 max0 \<longrightarrow> 300000 \<le> randomNumber min0 max0 ratio)"
proof -
  have bounds: "0 \<le> randomNumber min0 mx ratio \<and> randomNumber min0 mx ratio \<le> 600000
      \<and> (600000 < computed_max min0 mx \<longrightarrow> 300000 \<le> randomNumber min0 mx ratio)" for mx
  proof -
    define min1 where "min1 = parsed_min min0"
    define max1 where "max1 = computed_max min0 mx"
    define lo where "lo = (if max1 > 600000 then shr1 600000 else min1)"
    define hi where "hi = (if max1 > 600000 then 600000 else max1)"
    have eq: "randomNumber min0 mx ratio = draw lo hi ratio"
      unfolding randomNumber_def Let_def min1_def max1_def lo_def hi_def by (rule refl)
    have m1: "0 \<le> min1" "min1 < 2 ^ 30"
      using m by (simp_all add: min1_def)
    have dbl: "min1 < shl1 (if min1 = 0 then 1 else min1)"
      using m1 shl1_small [of min1] by (simp add: shl1_one)
    have past: "min1 < round_int (k + 1)" if "min1 < k" for k
    proof -
      have "round_int (min1 + 1) = min1 + 1" using m1 by (intro round_int_id) simp_all
      moreover have "round_int (min1 + 1) \<le> round_int (k + 1)"
        using m1 that by (intro round_int_mono) simp_all
      ultimately show ?thesis by simp
    qed
    have gt: "min1 < max1"
      using dbl past
      by (auto simp: max1_def computed_max_def min1_def [symmetric] Let_def split: option.splits)
    have w: "0 \<le> lo" "lo \<le> hi" "hi \<le> 600000" "600000 < max1 \<longrightarrow> lo = 300000"
      using m1 gt by (auto simp: lo_def hi_def shr1_maxTimeout)
    have r1: "ratio \<le> 1" using r by simp
    have "lo \<le> draw lo hi ratio \<and> draw lo hi ratio \<le> hi"
      using r(1) r1 w by (intro draw_in_window) auto
    then show ?thesis using w eq unfolding max1_def by auto
  qed
  have "\<exists>mx. defaultBackOff min0 ratio = randomNumber min0 mx ratio"
    unfolding defaultBackOff_def Let_def by (rule exI) (rule refl)
  then show ?thesis
    using bounds [of max0] bounds by metis
qed

text \<open>
  The theorem at a window that is shrunk (minimum 500000, maximum 700000) and at one that
  is not (minimum 1000, no maximum), with the draw \<open>1/2\<close>.
\<close>

theorem backoff_within_ceiling_witness:
  "(0::real) \<le> 1 / 2 \<and> (1 / 2 :: real) < 1
   \<and> 0 \<le> parsed_min (Some (Whole 500000)) \<and> parsed_min (Some (Whole 500000)) < 2 ^ 30
   \<and> 600000 < computed_max (Some (Whole 500000)) (Some (Whole 700000))
   \<and> randomNumber (Some (Whole 500000)) (Some (Whole 700000)) (1 / 2) = 450000
   \<and> 300000 \<le> randomNumber (Some (Whole 500000)) (Some (Whole 700000)) (1 / 2)
   \<and> randomNumber (Some (Whole 500000)) (Some (Whole 700000)) (1 / 2) \<le> 600000
   \<and> 0 \<le> parsed_min (Some (Whole 1000)) \<and> parsed_min (Some (Whole 1000)) < 2 ^ 30
   \<and> randomNumber (Some (Whole 1000)) None (1 / 2) = 1500
   \<and> defaultBackOff (Some (Whole 1000)) (1 / 2) \<le> 600000"
proof -
  have r: "(0::real) \<le> 1 / 2" "(1 / 2 :: real) < 1" by simp_all
  have m: "0 \<le> parsed_min (Some (Whole 500000))" "parsed_min (Some (Whole 500000)) < 2 ^ 30"
    by (simp_all add: parsed_min_Whole)
  have m': "0 \<le> parsed_min (Some (Whole 1000))" "parsed_min (Some (Whole 1000)) < 2 ^ 30"
    by (simp_all add: parsed_min_Whole)
  have "round_int 700001 = 700001" by (intro round_int_id) simp_all
  then have c': "computed_max (Some (Whole 500000)) (Some (Whole 700000)) = 700001"
    by (simp add: computed_max_def parsed_min_Whole parseInt10_def value_of_Whole)
  then have c: "600000 < computed_max (Some (Whole 500000)) (Some (Whole 700000))" by simp
  have "draw 300000 600000 (1 / 2) = 450000" by code_simp
  then have a: "randomNumber (Some (Whole 500000)) (Some (Whole 700000)) (1 / 2) = 450000"
    by (simp add: randomNumber_def c' shr1_maxTimeout Let_def)
  have "draw 1000 (2 * 1000) (1 / 2) = 1500" by code_simp
  then have b: "randomNumber (Some (Whole 1000)) None (1 / 2) = 1500"
    by (simp add: randomNumber_doubled)
  show ?thesis
    using backoff_within_ceiling [OF r m, of "Some (Whole 700000)"]
      backoff_within_ceiling [OF r m', of None] m m' c a b
    by simp
qed

text \<open>
  C7 as stated fails: nothing keeps the result at or above 0, and a negative minimum gives
  a negative result.
\<close>

theorem backoff_within_ceiling_counterexample:
  "defaultBackOff (Some (Whole (- 5))) 0 = - 5
   \<and> \<not> (0 \<le> defaultBackOff (Some (Whole (- 5))) 0
          \<and> defaultBackOff (Some (Whole (- 5))) 0 \<le> 600000)"
proof -
  have "round_int 1 = 1" by (intro round_int_id) simp_all
  then have c: "computed_max (Some (Whole (- 5))) (Some (Whole 0)) = 1"
    by (simp add: computed_max_def parsed_min_Whole parseInt10_def value_of_Whole)
  have d: "draw (- 5) 1 0 = - 5" by code_simp
  have a: "defaultBackOff (Some (Whole (- 5))) 0 = - 5"
    using d by (simp add: defaultBackOff_positive randomNumber_def c parsed_min_Whole Let_def)
  show ?thesis unfolding a by simp
qed

text \<open>
  Beyond the minimums of the theorem: the doubling \<open>(min || 1) << 1\<close> is a 32-bit shift; at
  the minimum \<open>2\<^sup>3\<^sup>0\<close> it wraps to \<open>-2\<^sup>3\<^sup>1\<close>, the test \<open>max > maxTimeout\<close> fails, the
  window is not shrunk, and the result exceeds 600000.
\<close>

lemma backoff_doubling_wraps:
  "computed_max (Some (Whole 1073741824)) (Some (Whole 0)) = - 2147483648
   \<and> defaultBackOff (Some (Whole 1073741824)) 0 = 1073741824
   \<and> randomNumber (Some (Whole 1073741824)) None 0 = 1073741824"
proof -
  have s: "shl1 1073741824 = - 2147483648" by code_simp
  have c: "computed_max (Some (Whole 1073741824)) (Some (Whole 0)) = - 2147483648"
    by (simp add: computed_max_def parsed_min_Whole parseInt10_def value_of_Whole s)
  have c': "computed_max (Some (Whole 1073741824)) None = - 2147483648"
    by (simp add: computed_max_def parsed_min_Whole parseInt10_def s)
  have d: "draw 1073741824 (- 2147483648) 0 = 1073741824" by code_simp
  have a: "defaultBackOff (Some (Whole 1073741824)) 0 = 1073741824"
    using d by (simp add: defaultBackOff_positive randomNumber_def c parsed_min_Whole Let_def)
  have b: "randomNumber (Some (Whole 1073741824)) None 0 = 1073741824"
    using d by (simp add: randomNumber_def c' parsed_min_Whole Let_def)
  show ?thesis using a b c by simp
qed

section \<open>\<open>adapterFun\<close>: operations on a database handle\<close>

text \<open>
  The handle \<open>this\<close> as the wrapper reads it: the two flags, the number of listeners for
  \<open>debug\<close> on its constructor, and the readiness flag of its task queue.
\<close>

record handle =
  closed :: bool
  destroyed :: bool
  debug_listeners :: nat
  taskqueue_isReady :: bool

text \<open>
  What a call does besides settling its promise, in order: a \<open>debug\<close> event emitted by
  \<open>logApiCall\<close>, a task added to the task queue, the underlying operation applied.
\<close>

datatype effect = EmitDebug string | AddTask string | Apply string

text \<open>
  A promise as its caller will find it: rejected with \<open>new Error(message)\<close>, resolved,
  or pending. A function wrapped by \<open>toPromise\<close> returns a thenable (\<open>Some\<close>) or
  something else (\<open>None\<close>); the arguments are passed along as one opaque value.
\<close>

datatype 'r promise = Rejected string | Resolved 'r | Pending

definition logApiCall :: "handle \<Rightarrow> string \<Rightarrow> effect list" where
  "logApiCall self name = (if debug_listeners self \<noteq> 0 then [EmitDebug name] else [])"

text \<open>
  \<open>toPromise\<close> resolves its promise with the thenable the wrapped function returns, so
  the promise of the call settles as that thenable does; without a thenable it stays
  pending until the function calls back.
\<close>

definition toPromise :: "(handle \<Rightarrow> 'a \<Rightarrow> 'r promise option \<times> effect list)
    \<Rightarrow> handle \<Rightarrow> 'a \<Rightarrow> 'r promise \<times> effect list" where
  "toPromise func self args =
     (case func self args of
        (Some resp, effects) \<Rightarrow> (resp, effects)
      | (None, effects) \<Rightarrow> (Pending, effects))"

definition adapterFun :: "string \<Rightarrow> (handle \<Rightarrow> 'a \<Rightarrow> 'r promise option) \<Rightarrow> handle \<Rightarrow> 'a
    \<Rightarrow> 'r promise \<times> effect list" where
  "adapterFun name callback =
     toPromise (\<lambda>this args.
       if closed this then (Some (Rejected ''database is closed''), [])
       else if destroyed this then (Some (Rejected ''database is destroyed''), [])
       else
         let logged = logApiCall this name in
         if \<not> taskqueue_isReady this then (Some Pending, logged @ [AddTask name])
         else (callback this args, logged @ [Apply name]))"

text \<open>
  C10 (amended). A handle flagged closed rejects with \<open>database is closed\<close>, and a handle
  flagged destroyed and not closed rejects with \<open>database is destroyed\<close>; in both cases
  nothing is logged, queued or applied.
\<close>

theorem adapterFun_closed_destroyed:
  "(closed this \<longrightarrow> adapterFun name callback this args = (Rejected ''database is closed'', []))
   \<and> (destroyed this \<and> \<not> closed this \<longrightarrow>
        adapterFun name callback this args = (Rejected ''database is destroyed'', []))"
  by (simp add: adapterFun_def toPromise_def)

text \<open>The theorem at a closed handle and at a destroyed one, for an operation \<open>get\<close>.\<close>

theorem adapterFun_closed_destroyed_witness:
  "closed \<lparr>closed = True, destroyed = False, debug_listeners = 1, taskqueue_isReady = False\<rparr>
   \<and> adapterFun ''get'' (\<lambda>this args. Some (Resolved args)) 
        \<lparr>closed = True, destroyed = False, debug_listeners = 1, taskqueue_isReady = False\<rparr> [Str ''doc1'']
       = (Rejected ''database is closed'', [])
   \<and> destroyed \<lparr>closed = False, destroyed = True, debug_listeners = 1, taskqueue_isReady = False\<rparr>
   \<and> \<not> closed \<lparr>closed = False, destroyed = True, debug_listeners = 1, taskqueue_isReady = False\<rparr>
   \<and> adapterFun ''get'' (\<lambda>this args. Some (Resolved args))
        \<lparr>closed = False, destroyed = True, debug_listeners = 1, taskqueue_isReady = False\<rparr> [Str ''doc1'']
       = (Rejected ''database is destroyed'', [])"
  using adapterFun_closed_destroyed
      [of "\<lparr>closed = True, destroyed = False, debug_listeners = 1, taskqueue_isReady = False\<rparr>"
          "''get''" "\<lambda>this args. Some (Resolved args)" "[Str ''doc1'']"]
    adapterFun_closed_destroyed
      [of "\<lparr>closed = False, destroyed = True, debug_listeners = 1, taskqueue_isReady = False\<rparr>"
          "''get''" "\<lambda>this args. Some (Resolved args)" "[Str ''doc1'']"]
  by simp

text \<open>
  C10 as stated fails on a handle flagged both closed and destroyed: the closed check comes
  first.
\<close>

theorem adapterFun_closed_destroyed_counterexample:
  "destroyed \<lparr>closed = True, destroyed = True, debug_listeners = 0, taskqueue_isReady = True\<rparr>
   \<and> adapterFun ''get'' (\<lambda>this args. Some (Resolved args))
        \<lparr>closed = True, destroyed = True, debug_listeners = 0, taskqueue_isReady = True\<rparr> [Str ''doc1'']
       \<noteq> (Rejected ''database is destroyed'', [])"
  by (simp add: adapterFun_def toPromise_def)

section \<open>\<open>filterChange\<close>: the per-event filter\<close>

text \<open>
  A document as the filter step reads it: its \<open>_attachments\<close> (absent, or a list of named
  attachments, each with its \<open>stub\<close> flag and the rest of its properties) and the rest
  of its properties.
\<close>

record attachment =
  stub :: bool
  att_rest :: jsval

record document =
  attachments :: "(string \<times> attachment) list option"
  doc_rest :: jsval

text \<open>
  A change event: its sequence number, its document, if it has one, and the rest of its
  properties.
\<close>

record change =
  seq :: int
  doc :: "document option"
  change_rest :: jsval

text \<open>The request object \<open>req\<close> handed to a filter: \<open>{query: opts.query_params}\<close>.\<close>

record req =
  query :: jsval

text \<open>
  \<open>createError(BAD_REQUEST, reason)\<close> of pouchdb-errors, kept as the constant it copies
  and the reason it sets.
\<close>

datatype error_constant = BAD_REQUEST

datatype pouch_error = PouchError error_constant string

definition createError :: "error_constant \<Rightarrow> string \<Rightarrow> pouch_error" where
  "createError error reason = PouchError error reason"

text \<open>
  A filter function returns a value or throws. What it throws is any value; the \<open>catch\<close>
  block of \<open>tryFilter\<close> reads it only through \<open>err.toString()\<close> inside the template of
  the message, which gives a text or throws itself: \<open>undefined\<close> and \<open>null\<close> have no
  \<open>toString\<close>, and the \<open>toString\<close> of an object may throw. \<open>opts.filter\<close> is such a
  function or any other value.
\<close>

datatype thrown = Text string | No_text

datatype filter_result = Returns jsval | Throws thrown

type_synonym filter_fun = "document \<Rightarrow> req \<Rightarrow> filter_result"

datatype filter_option = Function filter_fun | NotFunction jsval

record filter_opts =
  filter_opt :: filter_option
  query_params :: jsval
  include_docs :: bool
  attachments_opt :: bool

text \<open>
  What \<open>tryFilter\<close> and the \<open>filter\<close> closure return: a value or an error object. Either
  of them can also throw instead of returning.
\<close>

datatype filter_return = Value jsval | Error pouch_error

datatype 'a outcome = Returned 'a | Thrown

definition tryFilter :: "filter_fun \<Rightarrow> document \<Rightarrow> req \<Rightarrow> filter_return outcome" where
  "tryFilter filter_f d r =
     (case filter_f d r of
        Returns v \<Rightarrow> Returned (Value (Bool (\<not> truthy v)))
      | Throws err \<Rightarrow>
          (case err of
             Text t \<Rightarrow> Returned (Error (createError BAD_REQUEST (''Filter function threw: '' @ t)))
           | No_text \<Rightarrow> Thrown))"

text \<open>\<open>typeof v === "object"\<close> and truthiness of what \<open>filterReturn\<close> holds.\<close>

fun is_object :: "filter_return \<Rightarrow> bool" where
  "is_object (Error e) = True"
| "is_object (Value Null) = True"
| "is_object (Value (Arr xs)) = True"
| "is_object (Value (Obj kvs)) = True"
| "is_object (Value v) = False"

fun truthy_return :: "filter_return \<Rightarrow> bool" where
  "truthy_return (Error e) = True"
| "truthy_return (Value v) = truthy v"

text \<open>\<open>hasFilter = opts.filter && typeof opts.filter === "function"\<close>.\<close>

definition hasFilter :: "filter_opts \<Rightarrow> jsval" where
  "hasFilter opts =
     (case filter_opt opts of
        Function f \<Rightarrow> Bool True
      | NotFunction v \<Rightarrow> if truthy v then Bool False else v)"

definition stub_attachments :: "document \<Rightarrow> document" where
  "stub_attachments d =
     (case attachments d of
        None \<Rightarrow> d
      | Some atts \<Rightarrow> d\<lparr>attachments := Some (map (\<lambda>(name, a). (name, a\<lparr>stub := True\<rparr>)) atts)\<rparr>)"

text \<open>
  The closure \<open>filterChange(opts)\<close> returns, applied to a change: what it returns, or that
  it throws, and the change as it leaves it. In \<open>hasFilter && tryFilter(...)\<close> the filter
  is tried exactly when \<open>opts.filter\<close> is a function; otherwise the value of \<open>hasFilter\<close>
  stands. When \<open>tryFilter\<close> throws, the closure throws, after it has replaced a missing
  document.
\<close>

definition filterChange :: "filter_opts \<Rightarrow> change \<Rightarrow> filter_return outcome \<times> change" where
  "filterChange opts change0 =
     (let r = \<lparr>query = query_params opts\<rparr>;
          d = (case doc change0 of None \<Rightarrow> \<lparr>attachments = None, doc_rest = Obj []\<rparr> | Some d0 \<Rightarrow> d0);
          change1 = change0\<lparr>doc := Some d\<rparr>;
          tried = (case filter_opt opts of
                     Function f \<Rightarrow> tryFilter f d r
                   | NotFunction v \<Rightarrow> Returned (Value (hasFilter opts)))
      in case tried of
           Thrown \<Rightarrow> (Thrown, change1)
         | Returned filterReturn \<Rightarrow>
             if is_object filterReturn then (Returned filterReturn, change1)
             else if truthy_return filterReturn then (Returned (Value (Bool False)), change1)
             else if \<not> include_docs opts then (Returned (Value (Bool True)), change1\<lparr>doc := None\<rparr>)
             else if \<not> attachments_opt opts
               then (Returned (Value (Bool True)), change1\<lparr>doc := Some (stub_attachments d)\<rparr>)
             else (Returned (Value (Bool True)), change1))"

text \<open>
  C8 (amended). When the configured filter function throws an error whose text can be
  taken, the error is captured as a \<open>BAD_REQUEST\<close> error whose reason is
  \<open>Filter function threw: \<close> followed by that text, and the closure returns that error
  object in place of its verdict: neither \<open>false\<close> (dropped) nor \<open>true\<close> (passed). When
  taking the text throws as well, nothing is captured: the closure throws. In both cases the
  change itself carries no marker: it is left as it came, with a missing document replaced
  by an empty one.
\<close>

theorem filterChange_throwing_filter:
  assumes "filter_opt opts = Function f"
    and "f (case doc c of None \<Rightarrow> \<lparr>attachments = None, doc_rest = Obj []\<rparr> | Some d \<Rightarrow> d)
           \<lparr>query = query_params opts\<rparr> = Throws err"
  shows "filterChange opts c =
           ((case err of
               Text t \<Rightarrow> Returned (Error (createError BAD_REQUEST (''Filter function threw: '' @ t)))
             | No_text \<Rightarrow> Thrown),
            c\<lparr>doc := Some (case doc c of None \<Rightarrow> \<lparr>attachments = None, doc_rest = Obj []\<rparr>
                                        | Some d \<Rightarrow> d)\<rparr>)"
  using assms by (cases err) (simp_all add: filterChange_def tryFilter_def Let_def)

text \<open>
  The theorem at a filter that throws \<open>Error: boom\<close> and at a filter that throws
  \<open>undefined\<close>, with a change with sequence number 7 (scenario D).
\<close>

definition throwing_opts :: "thrown \<Rightarrow> filter_opts" where
  "throwing_opts err = \<lparr>filter_opt = Function (\<lambda>d r. Throws err), query_params = Undefined,
                         include_docs = False, attachments_opt = False\<rparr>"

definition change_7 :: change where
  "change_7 = \<lparr>seq = 7, doc = Some \<lparr>attachments = None, doc_rest = Obj [(''_id'', Str ''doc1'')]\<rparr>,
                 change_rest = Obj [(''id'', Str ''doc1'')]\<rparr>"

theorem filterChange_throwing_filter_witness:
  "filter_opt (throwing_opts (Text ''Error: boom'')) = Function (\<lambda>d r. Throws (Text ''Error: boom''))
   \<and> (\<lambda>d r. Throws (Text ''Error: boom''))
        (case doc change_7 of None \<Rightarrow> \<lparr>attachments = None, doc_rest = Obj []\<rparr> | Some d \<Rightarrow> d)
        \<lparr>query = query_params (throwing_opts (Text ''Error: boom''))\<rparr> = Throws (Text ''Error: boom'')
   \<and> filterChange (throwing_opts (Text ''Error: boom'')) change_7 =
        (Returned (Error (PouchError BAD_REQUEST ''Filter function threw: Error: boom'')), change_7)
   \<and> filter_opt (throwing_opts No_text) = Function (\<lambda>d r. Throws No_text)
   \<and> filterChange (throwing_opts No_text) change_7 = (Thrown, change_7)"
proof -
  have a: "filter_opt (throwing_opts e) = Function (\<lambda>d r. Throws e)" for e
    by (simp add: throwing_opts_def)
  have b: "(\<lambda>d r. Throws e)
        (case doc change_7 of None \<Rightarrow> \<lparr>attachments = None, doc_rest = Obj []\<rparr> | Some d \<Rightarrow> d)
        \<lparr>query = query_params (throwing_opts e)\<rparr> = Throws e" for e
    by simp
  show ?thesis
    using filterChange_throwing_filter [OF a b, of "Text ''Error: boom''"]
      filterChange_throwing_filter [OF a b, of No_text] a
    by (simp add: createError_def change_7_def)
qed

text \<open>
  C8 as stated fails: with a throwing filter the closure does not return \<open>true\<close>, and the
  change that leaves it is the change that came, with no error attached.
\<close>

theorem filterChange_throwing_filter_counterexample:
  "fst (filterChange (throwing_opts (Text ''Error: boom'')) change_7) \<noteq> Returned (Value (Bool True))
   \<and> snd (filterChange (throwing_opts (Text ''Error: boom'')) change_7) = change_7"
  by (simp add: filterChange_def tryFilter_def throwing_opts_def change_7_def Let_def)

section \<open>\<open>Changes.addListener\<close>: the runner of one subscription\<close>

text \<open>
  The variable \<open>inprogress\<close> of the closure: \<open>false\<close>, \<open>true\<close> or \<open>"waiting"\<close>.
\<close>

datatype progress = NotRunning | Running | Waiting

text \<open>
  One subscription: whether its \<open>eventFunction\<close> is still registered (in \<open>_listeners\<close> and
  on the emitter), \<open>inprogress\<close>, the fields \<open>since\<close> and \<open>cancelled\<close> of \<open>opts\<close>
  (\<open>since\<close> is the number that \<open>c.seq > opts.since\<close> compares with: \<open>None\<close> when
  that is \<open>NaN\<close>, as for \<open>undefined\<close>, and then no comparison with it holds),
  the \<open>db.changes\<close> calls started and not yet completed or failed, the calls started in
  all, the runs of \<open>eventFunction\<close> scheduled through \<open>immediate\<close> and not yet run, and
  the changes handed to \<open>opts.onChange\<close>, each with the value of \<open>opts.since\<close> the
  callback finds.
\<close>

record listener =
  listening :: bool
  inprogress :: progress
  since :: "int option"
  cancelled :: bool
  upstream :: nat
  calls :: nat
  immediates :: nat
  delivered :: "(change \<times> int option) list"

definition addListener :: "int option \<Rightarrow> listener" where
  "addListener since0 =
     \<lparr>listening = True, inprogress = NotRunning, since = since0, cancelled = False,
      upstream = 0, calls = 0, immediates = 0, delivered = []\<rparr>"

definition eventFunction :: "listener \<Rightarrow> listener" where
  "eventFunction s =
     (if \<not> listening s then s
      else if inprogress s \<noteq> NotRunning then s\<lparr>inprogress := Waiting\<rparr>
      else s\<lparr>inprogress := Running, upstream := upstream s + 1, calls := calls s + 1\<rparr>)"

text \<open>
  The handlers of one \<open>db.changes\<close> call: \<open>change\<close>, \<open>complete\<close> and \<open>error\<close>.
  \<open>gt_since\<close> is the comparison \<open>c.seq > opts.since\<close>.
\<close>

fun gt_since :: "int \<Rightarrow> int option \<Rightarrow> bool" where
  "gt_since x None = False"
| "gt_since x (Some w) = (x > w)"

definition on_change :: "change \<Rightarrow> listener \<Rightarrow> listener" where
  "on_change c s =
     (if gt_since (seq c) (since s) \<and> \<not> cancelled s
      then let s1 = s\<lparr>since := Some (seq c)\<rparr>
           in s1\<lparr>delivered := delivered s1 @ [(c, since s1)]\<rparr>
      else s)"

definition on_complete :: "listener \<Rightarrow> listener" where
  "on_complete s =
     (let s1 = (if inprogress s = Waiting then s\<lparr>immediates := immediates s + 1\<rparr> else s)
      in s1\<lparr>inprogress := NotRunning\<rparr>)"

definition onError :: "listener \<Rightarrow> listener" where
  "onError s = s\<lparr>inprogress := NotRunning\<rparr>"

text \<open>
  What can happen to a subscription between two suspension points: the emitter fires its
  channel, a scheduled \<open>eventFunction\<close> runs, a call in flight emits a change, completes or
  fails, the subscription is removed, the consumer cancels. An event that cannot happen in
  a state (no call in flight, nothing scheduled) has no successor.
\<close>

datatype event =
    Trigger | Immediate | Change change | Complete | Failure | RemoveListener | Cancel

fun step :: "listener \<Rightarrow> event \<Rightarrow> listener option" where
  "step s Trigger = Some (if listening s then eventFunction s else s)"
| "step s Immediate =
     (if immediates s = 0 then None
      else Some (eventFunction (s\<lparr>immediates := immediates s - 1\<rparr>)))"
| "step s (Change c) = (if upstream s = 0 then None else Some (on_change c s))"
| "step s Complete =
     (if upstream s = 0 then None else Some (on_complete (s\<lparr>upstream := upstream s - 1\<rparr>)))"
| "step s Failure =
     (if upstream s = 0 then None else Some (onError (s\<lparr>upstream := upstream s - 1\<rparr>)))"
| "step s RemoveListener = Some (s\<lparr>listening := False\<rparr>)"
| "step s Cancel = Some (s\<lparr>cancelled := True\<rparr>)"

fun run :: "listener \<Rightarrow> event list \<Rightarrow> listener option" where
  "run s [] = Some s"
| "run s (e # es) = (case step s e of None \<Rightarrow> None | Some s' \<Rightarrow> run s' es)"

subsection \<open>Single flight\<close>

definition flight_inv :: "listener \<Rightarrow> bool" where
  "flight_inv s = (upstream s = (if inprogress s = NotRunning then 0 else 1))"

lemma flight_inv_step: "flight_inv s \<Longrightarrow> step s e = Some s' \<Longrightarrow> flight_inv s'"
  by (cases e)
     (auto simp: flight_inv_def eventFunction_def on_change_def on_complete_def onError_def Let_def
           split: if_splits)

lemma flight_inv_run: "flight_inv s \<Longrightarrow> run s es = Some s' \<Longrightarrow> flight_inv s'"
proof (induction es arbitrary: s)
  case Nil
  then show ?case by simp
next
  case (Cons e es)
  then obtain s1 where s1: "step s e = Some s1" and r: "run s1 es = Some s'"
    by (auto split: option.splits)
  from Cons.prems(1) s1 have "flight_inv s1" by (rule flight_inv_step)
  with r show ?case by (rule Cons.IH [rotated])
qed

lemma run_append: "run s (es @ fs) = (case run s es of None \<Rightarrow> None | Some s' \<Rightarrow> run s' fs)"
  by (induction es arbitrary: s) (auto split: option.splits)

lemma run_triggers_while_running:
  "listening s \<Longrightarrow> inprogress s \<noteq> NotRunning \<Longrightarrow>
   run s (replicate (Suc n) Trigger) = Some (s\<lparr>inprogress := Waiting\<rparr>)"
proof (induction n arbitrary: s)
  case 0
  then show ?case by (simp add: eventFunction_def)
next
  case (Suc n)
  have "run s (replicate (Suc (Suc n)) Trigger)
      = run (s\<lparr>inprogress := Waiting\<rparr>) (replicate (Suc n) Trigger)"
    using Suc.prems by (simp add: eventFunction_def)
  also have "\<dots> = Some (s\<lparr>inprogress := Waiting\<rparr>)"
    using Suc.IH [of "s\<lparr>inprogress := Waiting\<rparr>"] Suc.prems by simp
  finally show ?case .
qed

text \<open>
  C3. Whatever happens to a registered subscription, at most one change-feed call is in
  flight. One trigger followed by any number \<open>n + 1\<close> of triggers while the first run is
  in flight, the completion of that run, the run scheduled by it and its completion make
  exactly two calls; with \<open>n = 1\<close> these are the two further triggers of the scenario.
\<close>

theorem single_flight:
  "(run (addListener since0) es = Some s \<longrightarrow> upstream s \<le> 1)
   \<and> map_option calls
        (run (addListener since0) (Trigger # replicate (Suc n) Trigger)) = Some 1
   \<and> map_option upstream
        (run (addListener since0) (Trigger # replicate (Suc n) Trigger)) = Some 1
   \<and> map_option (\<lambda>s. (calls s, upstream s, immediates s))
        (run (addListener since0) (Trigger # replicate (Suc n) Trigger @ [Complete]))
       = Some (1, 0, 1)
   \<and> map_option (\<lambda>s. (calls s, upstream s, immediates s, inprogress s))
        (run (addListener since0)
           (Trigger # replicate (Suc n) Trigger @ [Complete, Immediate, Complete]))
       = Some (2, 0, 0, NotRunning)"
proof -
  have inv0: "flight_inv (addListener since0)"
    by (simp add: flight_inv_def addListener_def)
  have a: "run (addListener since0) es = Some s \<longrightarrow> upstream s \<le> 1"
    using flight_inv_run [OF inv0] by (auto simp: flight_inv_def)
  define w where "w = \<lparr>listening = True, inprogress = Waiting, since = since0, cancelled = False,
      upstream = 1, calls = 1, immediates = 0, delivered = []\<rparr>"
  define s1 where "s1 = w\<lparr>inprogress := Running\<rparr>"
  have first: "step (addListener since0) Trigger = Some s1"
    by (simp add: s1_def w_def addListener_def eventFunction_def)
  have "run s1 (replicate (Suc n) Trigger) = Some (s1\<lparr>inprogress := Waiting\<rparr>)"
    by (rule run_triggers_while_running) (simp_all add: s1_def w_def)
  then have burst: "run (addListener since0) (Trigger # replicate (Suc n) Trigger) = Some w"
    using first by (simp add: s1_def w_def del: replicate.simps step.simps)
  have rest: "run (addListener since0) (Trigger # replicate (Suc n) Trigger @ fs) = run w fs"
    for fs
    using burst run_append [of "addListener since0" "Trigger # replicate (Suc n) Trigger" fs]
    by (simp del: replicate.simps run.simps)
  have b: "map_option calls (Some w) = Some 1" "map_option upstream (Some w) = Some 1"
    by (simp_all add: w_def)
  have c: "map_option (\<lambda>s. (calls s, upstream s, immediates s)) (run w [Complete]) = Some (1, 0, 1)"
    by (simp add: w_def on_complete_def Let_def)
  have d: "map_option (\<lambda>s. (calls s, upstream s, immediates s, inprogress s))
             (run w [Complete, Immediate, Complete]) = Some (2, 0, 0, NotRunning)"
    by (simp add: w_def on_complete_def eventFunction_def Let_def)
  show ?thesis
    unfolding burst rest using a b c d by blast
qed

text \<open>
  The run of scenario C: one trigger, two more while the first call is in flight, its
  completion, the scheduled run and the completion of the second call.
\<close>

theorem single_flight_witness:
  "run (addListener (Some 0)) [Trigger, Trigger, Trigger, Complete, Immediate, Complete]
     = Some \<lparr>listening = True, inprogress = NotRunning, since = Some 0, cancelled = False,
             upstream = 0, calls = 2, immediates = 0, delivered = []\<rparr>
   \<and> upstream \<lparr>listening = True, inprogress = NotRunning, since = Some 0, cancelled = False,
             upstream = 0, calls = 2, immediates = 0, delivered = []\<rparr> \<le> 1"
proof -
  have r: "run (addListener (Some 0)) [Trigger, Trigger, Trigger, Complete, Immediate, Complete]
     = Some \<lparr>listening = True, inprogress = NotRunning, since = Some 0, cancelled = False,
             upstream = 0, calls = 2, immediates = 0, delivered = []\<rparr>"
    by (simp add: addListener_def eventFunction_def on_complete_def Let_def)
  show ?thesis
    using single_flight [of "Some 0" "[Trigger, Trigger, Trigger, Complete, Immediate, Complete]"
        "\<lparr>listening = True, inprogress = NotRunning, since = Some 0, cancelled = False,
             upstream = 0, calls = 2, immediates = 0, delivered = []\<rparr>" 1] r
    by simp
qed

subsection \<open>The watermark\<close>

definition watermark_inv :: "int option \<Rightarrow> listener \<Rightarrow> bool" where
  "watermark_inv w0 s =
     (sorted_wrt (<) (map (\<lambda>(c, w). seq c) (delivered s))
      \<and> (\<forall>(c, w) \<in> set (delivered s).
            w = Some (seq c) \<and> gt_since (seq c) w0 \<and> (\<exists>v. since s = Some v \<and> seq c \<le> v))
      \<and> (delivered s \<noteq> [] \<longrightarrow> since s = Some (seq (fst (last (delivered s)))))
      \<and> (w0 = None \<longrightarrow> since s = None)
      \<and> (\<forall>v0 v. w0 = Some v0 \<longrightarrow> since s = Some v \<longrightarrow> v0 \<le> v))"

lemma watermark_inv_frame:
  "since s' = since s \<Longrightarrow> delivered s' = delivered s \<Longrightarrow> watermark_inv w0 s' = watermark_inv w0 s"
  by (simp add: watermark_inv_def)

lemma watermark_inv_on_change:
  assumes "watermark_inv w0 s"
  shows "watermark_inv w0 (on_change c s)"
proof (cases "gt_since (seq c) (since s) \<and> \<not> cancelled s")
  case False
  then show ?thesis using assms by (auto simp: on_change_def)
next
  case True
  then obtain v where v: "since s = Some v" "v < seq c"
    by (cases "since s") auto
  have eq: "on_change c s = s\<lparr>since := Some (seq c), delivered := delivered s @ [(c, Some (seq c))]\<rparr>"
    using True by (simp add: on_change_def Let_def)
  have old: "\<forall>(c', w) \<in> set (delivered s). seq c' \<le> v"
    using assms v by (auto simp: watermark_inv_def)
  obtain v0 where v0: "w0 = Some v0" "v0 \<le> v"
    using assms v by (cases w0) (auto simp: watermark_inv_def)
  have "sorted_wrt (<) (map (\<lambda>(c, w). seq c) (delivered s @ [(c, Some (seq c))]))"
    using assms old v by (fastforce simp: watermark_inv_def sorted_wrt_append)
  moreover have "\<forall>(c', w) \<in> set (delivered s @ [(c, Some (seq c))]).
      w = Some (seq c') \<and> gt_since (seq c') w0 \<and> seq c' \<le> seq c"
    using assms old v v0 by (fastforce simp: watermark_inv_def)
  ultimately show ?thesis
    using v v0 unfolding eq by (auto simp: watermark_inv_def)
qed

lemma watermark_inv_step:
  assumes "watermark_inv w0 s" and "step s e = Some s'"
  shows "watermark_inv w0 s'"
proof (cases e)
  case (Change c)
  then show ?thesis using assms watermark_inv_on_change [of w0 s c]
    by (auto split: if_splits)
next
  case Trigger
  then have "since s' = since s \<and> delivered s' = delivered s"
    using assms(2) by (auto simp: eventFunction_def)
  then show ?thesis using assms(1) watermark_inv_frame by blast
next
  case Immediate
  then have "since s' = since s \<and> delivered s' = delivered s"
    using assms(2) by (auto simp: eventFunction_def split: if_splits)
  then show ?thesis using assms(1) watermark_inv_frame by blast
next
  case Complete
  then have "since s' = since s \<and> delivered s' = delivered s"
    using assms(2) by (auto simp: on_complete_def Let_def split: if_splits)
  then show ?thesis using assms(1) watermark_inv_frame by blast
next
  case Failure
  then have "since s' = since s \<and> delivered s' = delivered s"
    using assms(2) by (auto simp: onError_def split: if_splits)
  then show ?thesis using assms(1) watermark_inv_frame by blast
next
  case RemoveListener
  then have "since s' = since s \<and> delivered s' = delivered s"
    using assms(2) by auto
  then show ?thesis using assms(1) watermark_inv_frame by blast
next
  case Cancel
  then have "since s' = since s \<and> delivered s' = delivered s"
    using assms(2) by auto
  then show ?thesis using assms(1) watermark_inv_frame by blast
qed

lemma watermark_inv_run: "watermark_inv w0 s \<Longrightarrow> run s es = Some s' \<Longrightarrow> watermark_inv w0 s'"
proof (induction es arbitrary: s)
  case Nil
  then show ?case by simp
next
  case (Cons e es)
  then obtain s1 where s1: "step s e = Some s1" and r: "run s1 es = Some s'"
    by (auto split: option.splits)
  from Cons.prems(1) s1 have "watermark_inv w0 s1" by (rule watermark_inv_step)
  with r show ?case by (rule Cons.IH [rotated])
qed

text \<open>
  C4. Along any run of a subscription that starts with nothing delivered, a change is
  handed to the consumer callback only when its \<open>seq\<close> exceeds the current watermark and
  the subscription is not cancelled; the callback finds the watermark already set to that
  \<open>seq\<close>; and the delivered \<open>seq\<close> values are strictly increasing, all above the
  watermark the run started with.
\<close>

theorem delivered_strictly_increasing:
  assumes "delivered s0 = []" and "run s0 es = Some s"
  shows "sorted_wrt (<) (map (\<lambda>(c, w). seq c) (delivered s))
       \<and> (\<forall>(c, w) \<in> set (delivered s). w = Some (seq c) \<and> gt_since (seq c) (since s0))
       \<and> (delivered s \<noteq> [] \<longrightarrow> since s = Some (seq (fst (last (delivered s)))))
       \<and> (delivered (on_change c s) \<noteq> delivered s \<longrightarrow>
             gt_since (seq c) (since s) \<and> \<not> cancelled s
             \<and> on_change c s
                 = s\<lparr>since := Some (seq c), delivered := delivered s @ [(c, Some (seq c))]\<rparr>)"
proof -
  have "watermark_inv (since s0) s0"
    using assms(1) by (auto simp: watermark_inv_def)
  then have inv: "watermark_inv (since s0) s"
    using assms(2) by (rule watermark_inv_run)
  have a: "sorted_wrt (<) (map (\<lambda>(c, w). seq c) (delivered s))"
    using inv by (simp add: watermark_inv_def)
  have b: "\<forall>(c, w) \<in> set (delivered s). w = Some (seq c) \<and> gt_since (seq c) (since s0)"
    using inv by (auto simp: watermark_inv_def)
  have c: "delivered s \<noteq> [] \<longrightarrow> since s = Some (seq (fst (last (delivered s))))"
    using inv by (simp add: watermark_inv_def)
  have d: "delivered (on_change c s) \<noteq> delivered s \<longrightarrow>
             gt_since (seq c) (since s) \<and> \<not> cancelled s
             \<and> on_change c s
                 = s\<lparr>since := Some (seq c), delivered := delivered s @ [(c, Some (seq c))]\<rparr>"
    by (auto simp: on_change_def Let_def)
  show ?thesis using a b c d by blast
qed

text \<open>
  A run from the watermark 4 in which changes 5, 3, 5 and 7 arrive: 5 and 7 are delivered,
  3 and the second 5 are not.
\<close>

definition change_of_seq :: "int \<Rightarrow> change" where
  "change_of_seq n = \<lparr>seq = n, doc = None, change_rest = Obj []\<rparr>"

theorem delivered_strictly_increasing_witness:
  "delivered (addListener (Some 4)) = []
   \<and> map_option (\<lambda>s. (map (\<lambda>(c, w). (seq c, w)) (delivered s), since s))
        (run (addListener (Some 4))
           [Trigger, Change (change_of_seq 5), Change (change_of_seq 3), Change (change_of_seq 5),
            Change (change_of_seq 7), Complete])
       = Some ([(5, Some 5), (7, Some 7)], Some 7)
   \<and> sorted_wrt (<) [5, 7 :: int]"
proof -
  obtain s where s: "run (addListener (Some 4))
           [Trigger, Change (change_of_seq 5), Change (change_of_seq 3), Change (change_of_seq 5),
            Change (change_of_seq 7), Complete] = Some s"
    and d: "map (\<lambda>(c, w). (seq c, w)) (delivered s) = [(5, Some 5), (7, Some 7)]"
    and w: "since s = Some 7"
    by (simp add: addListener_def eventFunction_def on_change_def on_complete_def Let_def
          change_of_seq_def)
  have e: "delivered (addListener (Some 4)) = []" by (simp add: addListener_def)
  have "map (\<lambda>(c, w). seq c) (delivered s) = map fst (map (\<lambda>(c, w). (seq c, w)) (delivered s))"
    by (simp add: case_prod_unfold)
  then have m: "map (\<lambda>(c, w). seq c) (delivered s) = [5, 7]" using d by simp
  show ?thesis
    using delivered_strictly_increasing [OF e s, of "change_of_seq 9"] s d w m e by simp
qed

section \<open>\<open>bulkGet\<close>: the shim for \<open>_bulk_get\<close>\<close>

definition pick :: "obj \<Rightarrow> string list \<Rightarrow> obj" where
  "pick object arr =
     foldl (\<lambda>res prop. case object prop of None \<Rightarrow> res | Some v \<Rightarrow> res(prop \<mapsto> v)) Map.empty arr"

definition MAX_NUM_CONCURRENT_REQUESTS :: nat where
  "MAX_NUM_CONCURRENT_REQUESTS = 6"

definition identityFunction :: "jsval \<Rightarrow> jsval" where
  "identityFunction x = x"

definition formatResultForOpenRevsGet :: "jsval \<Rightarrow> jsval" where
  "formatResultForOpenRevsGet result = Arr [Obj [(''ok'', result)]]"

text \<open>
  A request: its \<open>id\<close>, its \<open>rev\<close> (\<open>Undefined\<close> when it has none) and its other
  properties. The argument \<open>opts\<close>: its \<open>docs\<close> and its other properties.
\<close>

record request =
  req_id :: string
  req_rev :: jsval
  req_fields :: obj

record bulk_opts =
  docs :: "request list"
  globals :: obj

text \<open>
  \<open>requestsById\<close> is a \<open>Map\<close>: its keys in insertion order, each with the requests for
  that id.
\<close>

definition add_request :: "(string \<times> request list) list \<Rightarrow> request \<Rightarrow> (string \<times> request list) list"
  where
  "add_request m request =
     (if req_id request \<in> set (map fst m)
      then map (\<lambda>(k, g). if k = req_id request then (k, g @ [request]) else (k, g)) m
      else m @ [(req_id request, [request])])"

definition requestsById :: "bulk_opts \<Rightarrow> (string \<times> request list) list" where
  "requestsById opts = foldl add_request [] (docs opts)"

definition get_requests :: "(string \<times> request list) list \<Rightarrow> string \<Rightarrow> request list" where
  "get_requests m k = (case map_of m k of None \<Rightarrow> [] | Some g \<Rightarrow> g)"

definition numDocs :: "bulk_opts \<Rightarrow> nat" where
  "numDocs opts = length (requestsById opts)"

definition allRequests :: "bulk_opts \<Rightarrow> string list" where
  "allRequests opts = map fst (requestsById opts)"

text \<open>\<open>xs.slice(a, b)\<close> for \<open>a \<le> b \<le> xs.length\<close>.\<close>

definition slice :: "'a list \<Rightarrow> nat \<Rightarrow> nat \<Rightarrow> 'a list" where
  "slice xs a b = take (b - a) (drop a xs)"

text \<open>
  A slot of \<open>perDocResults\<close>, and a \<open>db.get\<close> call in flight with what its callback has
  captured: \<open>docIdx\<close>, \<open>docId\<close>, \<open>formatResult\<close>, and the options it was called with.
\<close>

record per_doc =
  pd_id :: string
  pd_docs :: jsval

record fetch =
  docIdx :: nat
  docId :: string
  docOpts :: obj
  formatResult :: "jsval \<Rightarrow> jsval"

text \<open>
  The variables of one invocation: \<open>i\<close>, \<open>numDone\<close>, \<open>perDocResults\<close> (a hole is
  \<open>None\<close>), the fetches in flight, the \<open>results\<close> arrays handed to \<open>callback\<close>, one per
  invocation of it, and the number of errors thrown out of a fetch callback.
\<close>

record bulk_state =
  bg_i :: nat
  numDone :: nat
  perDocResults :: "per_doc option list"
  in_flight :: "fetch list"
  finished :: "jsval list list"
  uncaught :: nat

text \<open>
  The options and the formatter of the fetch for one id, from the requests for it: the body
  of the loop of \<open>processBatch\<close> up to the call of \<open>db.get\<close>, in its two parts. First
  what the requests give: the fields picked from the first request, \<open>open_revs\<close> and the
  formatter. Every list of requests in \<open>requestsById\<close> has a first element
  (\<open>requestsById_nonempty\<close>); for the empty list, where the source would throw, nothing is
  picked. Then the globally supplied options, copied from \<open>opts\<close>.
\<close>

definition request_docOpts :: "request list \<Rightarrow> obj \<times> (jsval \<Rightarrow> jsval)" where
  "request_docOpts docRequests =
     (let picked = (case docRequests of
                      [] \<Rightarrow> Map.empty
                    | r # _ \<Rightarrow> pick (req_fields r) [''atts_since'', ''attachments'']);
          open_revs = filter truthy (map req_rev docRequests)
      in if length open_revs = 0 then (picked(''open_revs'' := None), formatResultForOpenRevsGet)
         else (picked(''open_revs'' \<mapsto> Arr open_revs), identityFunction))"

definition global_params :: "string list" where
  "global_params = [''revs'', ''attachments'', ''binary'', ''ajax'', ''latest'']"

definition apply_globals :: "bulk_opts \<Rightarrow> obj \<Rightarrow> obj" where
  "apply_globals opts d =
     foldl (\<lambda>d param. case globals opts param of None \<Rightarrow> d | Some v \<Rightarrow> d(param \<mapsto> v))
       d global_params"

definition make_docOpts :: "bulk_opts \<Rightarrow> request list \<Rightarrow> obj \<times> (jsval \<Rightarrow> jsval)" where
  "make_docOpts opts docRequests =
     (case request_docOpts docRequests of
        (docOpts', formatResult') \<Rightarrow> (apply_globals opts docOpts', formatResult'))"

definition new_fetch :: "bulk_opts \<Rightarrow> nat \<Rightarrow> string \<Rightarrow> fetch" where
  "new_fetch opts docIdx' docId' =
     (case make_docOpts opts (get_requests (requestsById opts) docId') of
        (docOpts', formatResult') \<Rightarrow>
          \<lparr>docIdx = docIdx', docId = docId', docOpts = docOpts', formatResult = formatResult'\<rparr>)"

definition start_fetch :: "bulk_opts \<Rightarrow> nat \<Rightarrow> bulk_state \<Rightarrow> nat \<times> string \<Rightarrow> bulk_state" where
  "start_fetch opts offset s jd =
     (case jd of (j, docId') \<Rightarrow> s\<lparr>in_flight := in_flight s @ [new_fetch opts (offset + j) docId']\<rparr>)"

definition processBatch :: "bulk_opts \<Rightarrow> string list \<Rightarrow> nat \<Rightarrow> bulk_state \<Rightarrow> bulk_state" where
  "processBatch opts batch offset s = foldl (start_fetch opts offset) s (enumerate 0 batch)"

definition nextBatch :: "bulk_opts \<Rightarrow> bulk_state \<Rightarrow> bulk_state" where
  "nextBatch opts s =
     (if bg_i s \<ge> length (allRequests opts) then s
      else
        let upTo = min (bg_i s + MAX_NUM_CONCURRENT_REQUESTS) (length (allRequests opts));
            batch = slice (allRequests opts) (bg_i s) upTo;
            s1 = processBatch opts batch (bg_i s) s
        in s1\<lparr>bg_i := bg_i s1 + length batch\<rparr>)"

text \<open>
  \<open>collapseResultsAndFinish\<close>: \<open>forEach\<close> skips the holes of \<open>perDocResults\<close>; a
  \<open>docs\<close> that is not an array has no \<open>forEach\<close>, and the error thrown there leaves
  \<open>callback\<close> uncalled.
\<close>

definition explode :: "per_doc \<Rightarrow> jsval list option" where
  "explode res =
     (case pd_docs res of
        Arr infos \<Rightarrow> Some (map (\<lambda>info. Obj [(''id'', Str (pd_id res)), (''docs'', Arr [info])]) infos)
      | _ \<Rightarrow> None)"

fun collapse :: "per_doc option list \<Rightarrow> jsval list \<Rightarrow> jsval list option" where
  "collapse [] results = Some results"
| "collapse (None # rest) results = collapse rest results"
| "collapse (Some res # rest) results =
     (case explode res of
        None \<Rightarrow> None
      | Some entries \<Rightarrow> collapse rest (results @ entries))"

definition collapseResultsAndFinish :: "bulk_state \<Rightarrow> bulk_state" where
  "collapseResultsAndFinish s =
     (case collapse (perDocResults s) [] of
        None \<Rightarrow> s\<lparr>uncaught := uncaught s + 1\<rparr>
      | Some results \<Rightarrow> s\<lparr>finished := finished s @ [results]\<rparr>)"

definition checkDone :: "bulk_opts \<Rightarrow> bulk_state \<Rightarrow> bulk_state" where
  "checkDone opts s =
     (let s1 = s\<lparr>numDone := numDone s + 1\<rparr>
      in if numDone s1 = numDocs opts then collapseResultsAndFinish s1 else s1)"

text \<open>\<open>xs[k] = v\<close> on an array: beyond its length the array grows, with holes.\<close>

definition array_set :: "'a option list \<Rightarrow> nat \<Rightarrow> 'a \<Rightarrow> 'a option list" where
  "array_set xs k v =
     (if k < length xs then xs[k := Some v]
      else xs @ replicate (k - length xs) None @ [Some v])"

definition gotResult :: "bulk_opts \<Rightarrow> nat \<Rightarrow> string \<Rightarrow> jsval \<Rightarrow> bulk_state \<Rightarrow> bulk_state" where
  "gotResult opts docIndex ident docs' s =
     checkDone opts
       (s\<lparr>perDocResults := array_set (perDocResults s) docIndex \<lparr>pd_id = ident, pd_docs = docs'\<rparr>\<rparr>)"

text \<open>
  The callback of one \<open>db.get\<close>, called with \<open>(err, res)\<close>. An error thrown by
  \<open>gotResult\<close> leaves the callback before \<open>nextBatch\<close>.
\<close>

definition get_callback :: "bulk_opts \<Rightarrow> fetch \<Rightarrow> jsval \<times> jsval \<Rightarrow> bulk_state \<Rightarrow> bulk_state" where
  "get_callback opts f reply s =
     (case reply of (err, res) \<Rightarrow>
        let result = (if truthy err then Arr [Obj [(''error'', err)]] else formatResult f res);
            s1 = gotResult opts (docIdx f) (docId f) result s
        in if uncaught s1 \<noteq> uncaught s then s1 else nextBatch opts s1)"

text \<open>
  \<open>bulkGet(db, opts, callback)\<close> up to its return: the state it leaves behind, with the
  first fetches in flight.
\<close>

definition bulkGet :: "bulk_opts \<Rightarrow> bulk_state" where
  "bulkGet opts =
     nextBatch opts
       \<lparr>bg_i = 0, numDone = 0, perDocResults = replicate (numDocs opts) None, in_flight = [],
        finished = [], uncaught = 0\<rparr>"

text \<open>
  The store \<open>db\<close> answers the fetch of an id with given options by \<open>(err, res)\<close>; the ids
  of one invocation are distinct, so this leaves every reply free. The fetch with index
  \<open>k\<close> completes: its callback runs. It must be in flight.
\<close>

type_synonym store = "string \<Rightarrow> obj \<Rightarrow> jsval \<times> jsval"

definition fetch_done :: "store \<Rightarrow> bulk_opts \<Rightarrow> bulk_state \<Rightarrow> nat \<Rightarrow> bulk_state option" where
  "fetch_done db opts s k =
     (case filter (\<lambda>f. docIdx f = k) (in_flight s) of
        [] \<Rightarrow> None
      | f # _ \<Rightarrow>
          Some (get_callback opts f (db (docId f) (docOpts f))
                  (s\<lparr>in_flight := filter (\<lambda>f. docIdx f \<noteq> k) (in_flight s)\<rparr>)))"

fun fetches_done :: "store \<Rightarrow> bulk_opts \<Rightarrow> bulk_state \<Rightarrow> nat list \<Rightarrow> bulk_state option" where
  "fetches_done db opts s [] = Some s"
| "fetches_done db opts s (k # ks) =
     (case fetch_done db opts s k of None \<Rightarrow> None | Some s' \<Rightarrow> fetches_done db opts s' ks)"

definition request_for :: "string \<Rightarrow> request" where
  "request_for k = \<lparr>req_id = k, req_rev = Undefined, req_fields = Map.empty\<rparr>"

subsection \<open>Launching fetches\<close>

lemma foldl_start_fetch:
  "foldl (start_fetch opts offset) s jds
     = s\<lparr>in_flight := in_flight s @ map (\<lambda>(j, d). new_fetch opts (offset + j) d) jds\<rparr>"
proof (induction jds arbitrary: s)
  case Nil
  then show ?case by simp
next
  case (Cons jd jds)
  obtain j d where jd: "jd = (j, d)" by (cases jd)
  have "foldl (start_fetch opts offset) s (jd # jds)
      = foldl (start_fetch opts offset) (start_fetch opts offset s jd) jds"
    by simp
  also have "\<dots> = (start_fetch opts offset s jd)\<lparr>in_flight :=
      in_flight (start_fetch opts offset s jd) @ map (\<lambda>(j, d). new_fetch opts (offset + j) d) jds\<rparr>"
    by (rule Cons.IH)
  also have "\<dots> = s\<lparr>in_flight := in_flight s @ map (\<lambda>(j, d). new_fetch opts (offset + j) d) (jd # jds)\<rparr>"
    by (simp add: start_fetch_def jd)
  finally show ?case .
qed

definition fetch_for :: "bulk_opts \<Rightarrow> nat \<Rightarrow> fetch" where
  "fetch_for opts k = new_fetch opts k (allRequests opts ! k)"

lemma docIdx_new_fetch [simp]: "docIdx (new_fetch opts k d) = k"
  by (simp add: new_fetch_def split: prod.splits)

lemma docId_new_fetch [simp]: "docId (new_fetch opts k d) = d"
  by (simp add: new_fetch_def split: prod.splits)

lemma docIdx_fetch_for [simp]: "docIdx (fetch_for opts k) = k"
  by (simp add: fetch_for_def)

lemma enumerate_slice:
  assumes "a \<le> b" and "b \<le> length xs"
  shows "map (\<lambda>(j, d). g (a + j) d) (enumerate 0 (slice xs a b)) = map (\<lambda>k. g k (xs ! k)) [a..<b]"
proof (rule nth_equalityI)
  show "length (map (\<lambda>(j, d). g (a + j) d) (enumerate 0 (slice xs a b)))
      = length (map (\<lambda>k. g k (xs ! k)) [a..<b])"
    using assms by (simp add: slice_def)
next
  fix j
  assume "j < length (map (\<lambda>(j, d). g (a + j) d) (enumerate 0 (slice xs a b)))"
  then have j: "j < b - a" using assms by (simp add: slice_def)
  then show "map (\<lambda>(j, d). g (a + j) d) (enumerate 0 (slice xs a b)) ! j
      = map (\<lambda>k. g k (xs ! k)) [a..<b] ! j"
    using assms by (simp add: slice_def nth_enumerate_eq)
qed

lemma nextBatch_eq:
  assumes "bg_i s \<le> numDocs opts"
  shows "nextBatch opts s
     = s\<lparr>in_flight := in_flight s @ map (fetch_for opts)
                 [bg_i s ..< min (bg_i s + MAX_NUM_CONCURRENT_REQUESTS) (numDocs opts)],
         bg_i := min (bg_i s + MAX_NUM_CONCURRENT_REQUESTS) (numDocs opts)\<rparr>"
proof (cases "bg_i s \<ge> length (allRequests opts)")
  case True
  then have "bg_i s = numDocs opts" using assms by (simp add: allRequests_def numDocs_def)
  then show ?thesis using True by (simp add: nextBatch_def)
next
  case False
  define upTo where "upTo = min (bg_i s + MAX_NUM_CONCURRENT_REQUESTS) (numDocs opts)"
  have n: "length (allRequests opts) = numDocs opts" by (simp add: allRequests_def numDocs_def)
  have b: "bg_i s \<le> upTo" "upTo \<le> length (allRequests opts)"
    using False by (simp_all add: upTo_def n)
  have len: "length (slice (allRequests opts) (bg_i s) upTo) = upTo - bg_i s"
    using b by (simp add: slice_def)
  have "map (\<lambda>(j, d). new_fetch opts (bg_i s + j) d) (enumerate 0 (slice (allRequests opts) (bg_i s) upTo))
      = map (\<lambda>k. new_fetch opts k (allRequests opts ! k)) [bg_i s ..< upTo]"
    using b by (rule enumerate_slice)
  then show ?thesis
    using False b len
    by (simp add: nextBatch_def Let_def processBatch_def foldl_start_fetch n upTo_def [symmetric]
          fetch_for_def [abs_def])
qed

subsection \<open>The invariant of one invocation\<close>

text \<open>
  The slot the fetch of the \<open>k\<close>-th distinct id fills, whenever it completes, and the
  results the invocation hands over once every slot is filled.
\<close>

definition per_doc_result :: "store \<Rightarrow> bulk_opts \<Rightarrow> nat \<Rightarrow> per_doc" where
  "per_doc_result db opts k =
     (let f = fetch_for opts k
      in case db (docId f) (docOpts f) of
           (err, res) \<Rightarrow>
             \<lparr>pd_id = docId f,
              pd_docs = (if truthy err then Arr [Obj [(''error'', err)]] else formatResult f res)\<rparr>)"

definition final_results :: "store \<Rightarrow> bulk_opts \<Rightarrow> jsval list option" where
  "final_results db opts = collapse (map (\<lambda>k. Some (per_doc_result db opts k)) [0..<numDocs opts]) []"

definition bulk_inv :: "store \<Rightarrow> bulk_opts \<Rightarrow> bulk_state \<Rightarrow> bool" where
  "bulk_inv db opts s =
     (bg_i s \<le> numDocs opts
      \<and> length (perDocResults s) = numDocs opts
      \<and> distinct (map docIdx (in_flight s))
      \<and> (\<forall>f \<in> set (in_flight s). docIdx f < bg_i s \<and> f = fetch_for opts (docIdx f))
      \<and> (\<forall>k < numDocs opts.
            perDocResults s ! k
              = (if k < bg_i s \<and> k \<notin> docIdx ` set (in_flight s)
                 then Some (per_doc_result db opts k) else None))
      \<and> numDone s + length (in_flight s) = bg_i s
      \<and> finished s
          = (if 0 < numDocs opts \<and> numDone s = numDocs opts
             then (case final_results db opts of None \<Rightarrow> [] | Some rs \<Rightarrow> [rs]) else [])
      \<and> uncaught s
          = (if 0 < numDocs opts \<and> numDone s = numDocs opts \<and> final_results db opts = None
             then 1 else 0))"

lemma bulk_inv_nextBatch:
  assumes inv: "bulk_inv db opts s"
  shows "bulk_inv db opts (nextBatch opts s)"
proof -
  define n where "n = numDocs opts"
  define i where "i = bg_i s"
  define upTo where "upTo = min (i + MAX_NUM_CONCURRENT_REQUESTS) n"
  define fl where "fl = in_flight s"
  define new where "new = map (fetch_for opts) [i ..< upTo]"
  have i_n: "i \<le> n" using inv by (simp add: bulk_inv_def i_def n_def)
  have i_up: "i \<le> upTo" "upTo \<le> n" using i_n by (simp_all add: upTo_def)
  have eq: "nextBatch opts s = s\<lparr>in_flight := fl @ new, bg_i := upTo\<rparr>"
    using nextBatch_eq [of s opts] i_n by (simp add: i_def n_def upTo_def fl_def new_def)
  have old: "\<forall>f \<in> set fl. docIdx f < i \<and> f = fetch_for opts (docIdx f)"
    using inv by (simp add: bulk_inv_def i_def fl_def)
  have idx_new: "map docIdx new = [i ..< upTo]"
    by (simp add: new_def comp_def map_idI)
  have img_new: "docIdx ` set new = {i ..< upTo}"
    using idx_new by (metis image_set set_upt)
  have c1: "bg_i (nextBatch opts s) \<le> numDocs opts"
    using i_up by (simp add: eq n_def)
  have c2: "length (perDocResults (nextBatch opts s)) = numDocs opts"
    using inv by (simp add: eq bulk_inv_def)
  have "distinct (map docIdx fl)" using inv by (simp add: bulk_inv_def fl_def)
  moreover have "set (map docIdx fl) \<inter> set [i ..< upTo] = {}"
    using old by auto
  ultimately have c3: "distinct (map docIdx (in_flight (nextBatch opts s)))"
    by (simp add: eq idx_new)
  have new_mem: "\<forall>f \<in> set new. docIdx f < upTo \<and> f = fetch_for opts (docIdx f)"
    by (auto simp: new_def)
  have c4: "\<forall>f \<in> set (in_flight (nextBatch opts s)).
      docIdx f < bg_i (nextBatch opts s) \<and> f = fetch_for opts (docIdx f)"
    using old new_mem i_up by (auto simp: eq)
  have slots: "\<forall>k < n. perDocResults s ! k
      = (if k < i \<and> k \<notin> docIdx ` set fl then Some (per_doc_result db opts k) else None)"
    using inv by (simp add: bulk_inv_def n_def i_def fl_def)
  have c5: "\<forall>k < numDocs opts.
      perDocResults (nextBatch opts s) ! k
        = (if k < bg_i (nextBatch opts s) \<and> k \<notin> docIdx ` set (in_flight (nextBatch opts s))
           then Some (per_doc_result db opts k) else None)"
  proof (intro allI impI)
    fix k assume k: "k < numDocs opts"
    have "(k < upTo \<and> k \<notin> docIdx ` set fl \<union> {i ..< upTo}) = (k < i \<and> k \<notin> docIdx ` set fl)"
      using i_up by auto
    then show "perDocResults (nextBatch opts s) ! k
        = (if k < bg_i (nextBatch opts s) \<and> k \<notin> docIdx ` set (in_flight (nextBatch opts s))
           then Some (per_doc_result db opts k) else None)"
      using slots k by (simp add: eq n_def image_Un img_new)
  qed
  have "numDone s + length fl = i" using inv by (simp add: bulk_inv_def i_def fl_def)
  then have c6: "numDone (nextBatch opts s) + length (in_flight (nextBatch opts s))
      = bg_i (nextBatch opts s)"
    using i_up by (simp add: eq new_def)
  have c7: "finished (nextBatch opts s)
      = (if 0 < numDocs opts \<and> numDone (nextBatch opts s) = numDocs opts
         then (case final_results db opts of None \<Rightarrow> [] | Some rs \<Rightarrow> [rs]) else [])"
    using inv by (simp add: eq bulk_inv_def)
  have c8: "uncaught (nextBatch opts s)
      = (if 0 < numDocs opts \<and> numDone (nextBatch opts s) = numDocs opts
            \<and> final_results db opts = None
         then 1 else 0)"
    using inv by (simp add: eq bulk_inv_def)
  show ?thesis
    unfolding bulk_inv_def using c1 c2 c3 c4 c5 c6 c7 c8 by blast
qed

lemma bulk_inv_bulkGet: "bulk_inv db opts (bulkGet opts)"
proof -
  have "bulk_inv db opts \<lparr>bg_i = 0, numDone = 0, perDocResults = replicate (numDocs opts) None,
      in_flight = [], finished = [], uncaught = 0\<rparr>"
    by (auto simp: bulk_inv_def)
  then show ?thesis
    unfolding bulkGet_def by (rule bulk_inv_nextBatch)
qed

lemma length_filter_other:
  "distinct (map g xs) \<Longrightarrow> x \<in> set xs \<Longrightarrow> Suc (length (filter (\<lambda>y. g y \<noteq> g x) xs)) = length xs"
proof (induction xs)
  case Nil
  then show ?case by simp
next
  case (Cons a xs)
  show ?case
  proof (cases "a = x")
    case True
    have "g x \<notin> g ` set xs" using Cons.prems True by simp
    then have "\<forall>y \<in> set xs. g y \<noteq> g x" by (metis imageI)
    then have "filter (\<lambda>y. g y \<noteq> g x) xs = xs" by (simp add: filter_id_conv)
    then show ?thesis using True by simp
  next
    case False
    then have "x \<in> set xs" "g a \<noteq> g x" using Cons.prems by auto
    then show ?thesis using Cons by simp
  qed
qed

lemma collapse_all_filled:
  "collapse (map Some pds) acc
     = (if \<forall>p \<in> set pds. explode p \<noteq> None then Some (acc @ concat (map (\<lambda>p. the (explode p)) pds))
        else None)"
  by (induction pds arbitrary: acc) (auto split: option.splits)

text \<open>The callback of the fetch with index \<open>k\<close>, once it has left the fetches in flight.\<close>

lemma bulk_inv_get_callback:
  assumes inv: "bulk_inv db opts s"
    and f: "f \<in> set (in_flight s)"
  shows "bulk_inv db opts
           (get_callback opts f (db (docId f) (docOpts f))
              (s\<lparr>in_flight := filter (\<lambda>g. docIdx g \<noteq> docIdx f) (in_flight s)\<rparr>))"
proof -
  define n where "n = numDocs opts"
  define k where "k = docIdx f"
  define fl where "fl = filter (\<lambda>g. docIdx g \<noteq> k) (in_flight s)"
  define pd where "pd = per_doc_result db opts k"
  define s2 where "s2 = s\<lparr>in_flight := fl, perDocResults := (perDocResults s)[k := Some pd],
      numDone := numDone s + 1\<rparr>"
  have fk: "f = fetch_for opts k" "k < bg_i s"
    using inv f by (auto simp: bulk_inv_def k_def)
  have i_n: "bg_i s \<le> n" and len: "length (perDocResults s) = n"
    using inv by (simp_all add: bulk_inv_def n_def)
  have k_n: "k < n" using fk i_n by simp
  have dist: "distinct (map docIdx (in_flight s))" using inv by (simp add: bulk_inv_def)
  have cnt: "numDone s + length (in_flight s) = bg_i s" using inv by (simp add: bulk_inv_def)
  have len_fl: "Suc (length fl) = length (in_flight s)"
    unfolding fl_def k_def using dist f by (rule length_filter_other)
  have done_lt: "numDone s < n" using cnt len_fl i_n by linarith
  have img_fl: "docIdx ` set fl = docIdx ` set (in_flight s) - {k}"
    by (auto simp: fl_def)
  have fin0: "finished s = []" "uncaught s = 0"
    using inv done_lt by (auto simp: bulk_inv_def n_def)
  obtain err res where reply: "db (docId f) (docOpts f) = (err, res)"
    by (cases "db (docId f) (docOpts f)")
  have pd_eq: "pd = \<lparr>pd_id = docId f,
      pd_docs = (if truthy err then Arr [Obj [(''error'', err)]] else formatResult f res)\<rparr>"
    using reply fk(1) by (simp add: pd_def per_doc_result_def Let_def)
  have slots: "\<forall>j < n. perDocResults s ! j
      = (if j < bg_i s \<and> j \<notin> docIdx ` set (in_flight s) then Some (per_doc_result db opts j)
         else None)"
    using inv by (simp add: bulk_inv_def n_def)
  have slots2: "\<forall>j < n. perDocResults s2 ! j
      = (if j < bg_i s \<and> j \<notin> docIdx ` set fl then Some (per_doc_result db opts j) else None)"
  proof (intro allI impI)
    fix j assume j: "j < n"
    show "perDocResults s2 ! j
      = (if j < bg_i s \<and> j \<notin> docIdx ` set fl then Some (per_doc_result db opts j) else None)"
    proof (cases "j = k")
      case True
      then show ?thesis using fk k_n len by (simp add: s2_def img_fl pd_def)
    next
      case False
      then show ?thesis using slots j by (simp add: s2_def img_fl)
    qed
  qed
  have inv2: "bulk_inv db opts s2" if "numDone s + 1 < n"
  proof -
    have "distinct (map docIdx fl)" using dist by (simp add: fl_def distinct_map_filter)
    moreover have "\<forall>g \<in> set fl. docIdx g < bg_i s \<and> g = fetch_for opts (docIdx g)"
      using inv by (auto simp: bulk_inv_def fl_def)
    moreover have "numDone s2 + length (in_flight s2) = bg_i s2"
      using cnt len_fl by (simp add: s2_def)
    ultimately show ?thesis
      unfolding bulk_inv_def
      using i_n len slots2 that fin0 by (simp add: s2_def n_def)
  qed
  have got: "gotResult opts k (docId f)
      (if truthy err then Arr [Obj [(''error'', err)]] else formatResult f res) (s\<lparr>in_flight := fl\<rparr>)
      = (if numDone s + 1 = n then collapseResultsAndFinish s2 else s2)"
    using k_n len
    by (simp add: gotResult_def checkDone_def array_set_def Let_def s2_def pd_eq n_def)
  have cb: "get_callback opts f (db (docId f) (docOpts f)) (s\<lparr>in_flight := fl\<rparr>)
      = (let s1 = (if numDone s + 1 = n then collapseResultsAndFinish s2 else s2)
         in if uncaught s1 \<noteq> uncaught s then s1 else nextBatch opts s1)"
    using got by (simp add: get_callback_def reply k_def [symmetric] Let_def)
  show ?thesis
  proof (cases "numDone s + 1 = n")
    case False
    then have lt: "numDone s + 1 < n" using done_lt by simp
    have "get_callback opts f (db (docId f) (docOpts f)) (s\<lparr>in_flight := fl\<rparr>) = nextBatch opts s2"
      using False by (simp add: cb s2_def)
    then show ?thesis
      using bulk_inv_nextBatch [OF inv2 [OF lt]] by (simp add: fl_def k_def)
  next
    case True
    have "length fl = 0" using True cnt len_fl i_n by linarith
    then have fl_nil: "fl = []" by simp
    have i_eq: "bg_i s = n" using True cnt len_fl i_n by linarith
    have all: "perDocResults s2 = map (\<lambda>j. Some (per_doc_result db opts j)) [0..<n]"
    proof (rule nth_equalityI)
      show "length (perDocResults s2) = length (map (\<lambda>j. Some (per_doc_result db opts j)) [0..<n])"
        using len by (simp add: s2_def)
    next
      fix j assume "j < length (perDocResults s2)"
      then have "j < n" using len by (simp add: s2_def)
      then show "perDocResults s2 ! j = map (\<lambda>j. Some (per_doc_result db opts j)) [0..<n] ! j"
        using slots2 fl_nil i_eq by simp
    qed
    have coll: "collapse (perDocResults s2) [] = final_results db opts"
      by (simp add: all final_results_def n_def)
    define s3 where "s3 = collapseResultsAndFinish s2"
    have s3: "s3 = (case final_results db opts of
                      None \<Rightarrow> s2\<lparr>uncaught := 1\<rparr>
                    | Some rs \<Rightarrow> s2\<lparr>finished := [rs]\<rparr>)"
    proof -
      have f2: "finished s2 = []" "uncaught s2 = 0" using fin0 by (simp_all add: s2_def)
      show ?thesis
        unfolding s3_def collapseResultsAndFinish_def coll f2 by (simp split: option.splits)
    qed
    have inv3: "bulk_inv db opts s3"
      unfolding bulk_inv_def
      using i_n len slots2 True fin0 fl_nil i_eq k_n
      by (auto simp: s3 s2_def n_def split: option.splits)
    have "get_callback opts f (db (docId f) (docOpts f)) (s\<lparr>in_flight := fl\<rparr>)
        = (if uncaught s3 \<noteq> uncaught s then s3 else nextBatch opts s3)"
      using True by (simp add: cb s3_def)
    then show ?thesis
      using inv3 bulk_inv_nextBatch [OF inv3] by (simp add: fl_def k_def)
  qed
qed

lemma bulk_inv_fetch_done:
  assumes "bulk_inv db opts s" and "fetch_done db opts s k = Some s'"
  shows "bulk_inv db opts s'"
proof -
  obtain f rest where fr: "filter (\<lambda>f. docIdx f = k) (in_flight s) = f # rest"
    using assms(2) by (auto simp: fetch_done_def split: list.splits)
  then have "f \<in> set (filter (\<lambda>f. docIdx f = k) (in_flight s))" by simp
  then have f: "f \<in> set (in_flight s)" "docIdx f = k" by auto
  have "s' = get_callback opts f (db (docId f) (docOpts f))
      (s\<lparr>in_flight := filter (\<lambda>g. docIdx g \<noteq> docIdx f) (in_flight s)\<rparr>)"
    using assms(2) fr f by (simp add: fetch_done_def)
  then show ?thesis using bulk_inv_get_callback [OF assms(1) f(1)] by simp
qed

lemma bulk_inv_fetches_done:
  "bulk_inv db opts s \<Longrightarrow> fetches_done db opts s ks = Some s' \<Longrightarrow> bulk_inv db opts s'"
proof (induction ks arbitrary: s)
  case Nil
  then show ?case by simp
next
  case (Cons k ks)
  then obtain s1 where s1: "fetch_done db opts s k = Some s1"
    and r: "fetches_done db opts s1 ks = Some s'"
    by (auto split: option.splits)
  from Cons.prems(1) s1 have "bulk_inv db opts s1" by (rule bulk_inv_fetch_done)
  with r show ?case by (rule Cons.IH [rotated])
qed

subsection \<open>Grouping the requests\<close>

definition group_inv :: "(string \<times> request list) list \<Rightarrow> bool" where
  "group_inv m = (distinct (map fst m) \<and> (\<forall>(k, g) \<in> set m. g \<noteq> []))"

lemma sum_append_group:
  "distinct (map fst m) \<Longrightarrow> k \<in> fst ` set m \<Longrightarrow>
   sum_list (map (\<lambda>(k', g). length g)
     (map (\<lambda>(k', g). if k' = k then (k', g @ [r]) else (k', g)) m))
     = Suc (sum_list (map (\<lambda>(k', g). length g) m))"
proof (induction m)
  case Nil
  then show ?case by simp
next
  case (Cons a m)
  obtain k' g where a: "a = (k', g)" by (cases a)
  show ?case
  proof (cases "k' = k")
    case True
    then have "k \<notin> fst ` set m" using Cons.prems a by auto
    then have "map (\<lambda>(k', g). if k' = k then (k', g @ [r]) else (k', g)) m = m"
      by (intro map_idI) (auto simp: image_iff)
    then show ?thesis using a True by simp
  next
    case False
    then have "k \<in> fst ` set m" using Cons.prems a by auto
    then show ?thesis using Cons a False by simp
  qed
qed

lemma add_request_keys:
  "map fst (add_request m r) = (if req_id r \<in> set (map fst m) then map fst m else map fst m @ [req_id r])"
  by (auto simp: add_request_def intro!: map_idI)

lemma add_request_inv: "group_inv m \<Longrightarrow> group_inv (add_request m r)"
  unfolding group_inv_def add_request_keys
  by (auto simp: add_request_def split: if_splits)

lemma add_request_sum:
  "distinct (map fst m) \<Longrightarrow>
   sum_list (map (\<lambda>(k, g). length g) (add_request m r)) = Suc (sum_list (map (\<lambda>(k, g). length g) m))"
proof (cases "req_id r \<in> set (map fst m)")
  case True
  assume "distinct (map fst m)"
  then have "sum_list (map (\<lambda>(k', g). length g)
     (map (\<lambda>(k', g). if k' = req_id r then (k', g @ [r]) else (k', g)) m))
     = Suc (sum_list (map (\<lambda>(k', g). length g) m))"
    using True by (intro sum_append_group) simp_all
  then show ?thesis using True by (simp add: add_request_def del: map_map)
next
  case False
  then show ?thesis by (simp add: add_request_def)
qed

lemma foldl_add_request:
  "group_inv m \<Longrightarrow>
   group_inv (foldl add_request m rs)
   \<and> sum_list (map (\<lambda>(k, g). length g) (foldl add_request m rs))
       = sum_list (map (\<lambda>(k, g). length g) m) + length rs"
proof (induction rs arbitrary: m)
  case Nil
  then show ?case by simp
next
  case (Cons r rs)
  have "group_inv (add_request m r)" using Cons.prems by (rule add_request_inv)
  from Cons.IH [OF this] show ?case
    using Cons.prems by (simp add: add_request_sum group_inv_def)
qed

lemma requestsById_inv: "group_inv (requestsById opts)"
  using foldl_add_request [of "[]" "docs opts"] by (simp add: requestsById_def group_inv_def)

lemma requestsById_nonempty:
  "k < numDocs opts \<Longrightarrow> get_requests (requestsById opts) (allRequests opts ! k) \<noteq> []"
  and get_requests_nth:
  "k < numDocs opts \<Longrightarrow>
   get_requests (requestsById opts) (allRequests opts ! k) = snd (requestsById opts ! k)"
proof -
  assume k: "k < numDocs opts"
  define m where "m = requestsById opts"
  have inv: "distinct (map fst m)" "\<forall>(k, g) \<in> set m. g \<noteq> []"
    using requestsById_inv [of opts] by (simp_all add: group_inv_def m_def)
  have mem: "m ! k \<in> set m" using k by (simp add: numDocs_def m_def)
  then have "(fst (m ! k), snd (m ! k)) \<in> set m" by simp
  then have "map_of m (fst (m ! k)) = Some (snd (m ! k))"
    using inv(1) by simp
  then show eq: "get_requests (requestsById opts) (allRequests opts ! k) = snd (requestsById opts ! k)"
    using k by (simp add: get_requests_def allRequests_def numDocs_def m_def)
  have "snd (m ! k) \<noteq> []" using inv(2) mem by (auto simp: case_prod_unfold)
  then show "get_requests (requestsById opts) (allRequests opts ! k) \<noteq> []"
    using eq by (simp add: m_def)
qed

lemma requests_total:
  "sum_list (map (\<lambda>k. length (get_requests (requestsById opts) (allRequests opts ! k)))
     [0..<numDocs opts]) = length (docs opts)"
proof -
  define m where "m = requestsById opts"
  have "map (\<lambda>k. length (get_requests (requestsById opts) (allRequests opts ! k))) [0..<numDocs opts]
      = map (\<lambda>k. length (snd (m ! k))) [0..<length m]"
    by (simp add: get_requests_nth numDocs_def m_def)
  also have "\<dots> = map (\<lambda>(k, g). length g) m"
    by (intro nth_equalityI) (simp_all add: case_prod_unfold)
  finally show ?thesis
    using foldl_add_request [of "[]" "docs opts"]
    by (simp add: requestsById_def group_inv_def m_def)
qed

subsection \<open>The fetches in flight\<close>

definition eight_ids :: bulk_opts where
  "eight_ids =
     \<lparr>docs = map request_for [''a'', ''b'', ''c'', ''d'', ''e'', ''f'', ''g'', ''h''],
      globals = Map.empty\<rparr>"

definition found_store :: store where
  "found_store k d = (Null, Obj [(''_id'', Str k)])"

text \<open>
  C1. With eight distinct ids \<open>bulkGet\<close> starts six fetches. When the first of them
  completes, its callback calls \<open>nextBatch\<close>, which starts a whole batch, here the two
  remaining ids at once: seven fetches are in flight, one more than
  \<open>MAX_NUM_CONCURRENT_REQUESTS\<close>.
\<close>

theorem bulkGet_exceeds_cap:
  "map docIdx (in_flight (bulkGet eight_ids)) = [0, 1, 2, 3, 4, 5]
   \<and> map_option (\<lambda>s. map docIdx (in_flight s))
        (fetches_done found_store eight_ids (bulkGet eight_ids) [0]) = Some [1, 2, 3, 4, 5, 6, 7]
   \<and> map_option (\<lambda>s. length (in_flight s))
        (fetches_done found_store eight_ids (bulkGet eight_ids) [0]) = Some 7
   \<and> MAX_NUM_CONCURRENT_REQUESTS = 6"
proof -
  have a: "map docIdx (in_flight (bulkGet eight_ids)) = [0, 1, 2, 3, 4, 5]"
    by code_simp
  have b: "map_option (\<lambda>s. map docIdx (in_flight s))
        (fetches_done found_store eight_ids (bulkGet eight_ids) [0]) = Some [1, 2, 3, 4, 5, 6, 7]"
    by code_simp
  have c: "map_option (\<lambda>s. length (in_flight s))
        (fetches_done found_store eight_ids (bulkGet eight_ids) [0]) = Some 7"
    by code_simp
  show ?thesis using a b c by (simp add: MAX_NUM_CONCURRENT_REQUESTS_def)
qed

text \<open>
  With twenty ids, every completion starts six more fetches while ids remain: eleven and
  then sixteen fetches are in flight.
\<close>

definition twenty_ids :: bulk_opts where
  "twenty_ids =
     \<lparr>docs = map (\<lambda>n. request_for (replicate n CHR ''x'')) [1..<21], globals = Map.empty\<rparr>"

lemma bulkGet_twenty_ids:
  "map_option (\<lambda>s. length (in_flight s))
     (fetches_done found_store twenty_ids (bulkGet twenty_ids) [0]) = Some 11"
  "map_option (\<lambda>s. length (in_flight s))
     (fetches_done found_store twenty_ids (bulkGet twenty_ids) [0, 1]) = Some 16"
  by code_simp+

subsection \<open>Completion\<close>

text \<open>
  Along every run the callback is called at most once, and only when every distinct id
  has its result and no fetch is in flight.
\<close>

lemma finished_at_most_once:
  assumes "fetches_done db opts (bulkGet opts) ks = Some s"
  shows "length (finished s) \<le> 1"
    and "finished s \<noteq> [] \<Longrightarrow> 0 < numDocs opts \<and> numDone s = numDocs opts \<and> in_flight s = []"
proof -
  have inv: "bulk_inv db opts s"
    using bulk_inv_bulkGet assms by (rule bulk_inv_fetches_done)
  show "length (finished s) \<le> 1"
    using inv by (auto simp: bulk_inv_def split: option.splits)
  assume ne: "finished s \<noteq> []"
  then have d: "0 < numDocs opts \<and> numDone s = numDocs opts"
    using inv by (auto simp: bulk_inv_def split: if_splits)
  moreover have "numDone s + length (in_flight s) = bg_i s" "bg_i s \<le> numDocs opts"
    using inv by (simp_all add: bulk_inv_def)
  ultimately have "length (in_flight s) = 0" by linarith
  then show "0 < numDocs opts \<and> numDone s = numDocs opts \<and> in_flight s = []"
    using d by simp
qed

lemma bg_i_gotResult: "bg_i (gotResult opts k ident v s) = bg_i s"
  by (simp add: gotResult_def checkDone_def collapseResultsAndFinish_def Let_def
      split: option.splits)

lemma nextBatch_progress:
  assumes "bg_i s \<le> numDocs opts" and "bg_i (nextBatch opts s) < numDocs opts"
  shows "in_flight (nextBatch opts s) \<noteq> []"
proof -
  define upTo where "upTo = min (bg_i s + MAX_NUM_CONCURRENT_REQUESTS) (numDocs opts)"
  have eq: "nextBatch opts s
     = s\<lparr>in_flight := in_flight s @ map (fetch_for opts) [bg_i s ..< upTo], bg_i := upTo\<rparr>"
    unfolding upTo_def using assms(1) by (rule nextBatch_eq)
  have "upTo < numDocs opts" using assms(2) unfolding eq by simp
  then have "bg_i s < upTo"
    by (simp add: upTo_def MAX_NUM_CONCURRENT_REQUESTS_def min_def split: if_splits)
  then show ?thesis unfolding eq by simp
qed

lemma fetch_done_progress:
  assumes inv: "bulk_inv db opts s" and step: "fetch_done db opts s k = Some s'"
    and lt: "bg_i s' < numDocs opts"
  shows "in_flight s' \<noteq> []"
proof -
  have inv': "bulk_inv db opts s'" using inv step by (rule bulk_inv_fetch_done)
  obtain f rest where fr: "filter (\<lambda>f. docIdx f = k) (in_flight s) = f # rest"
    using step by (auto simp: fetch_done_def split: list.splits)
  then have "f \<in> set (filter (\<lambda>f. docIdx f = k) (in_flight s))" by simp
  then have "in_flight s \<noteq> []" by auto
  then have "numDone s < numDocs opts"
    using inv by (cases "in_flight s") (auto simp: bulk_inv_def)
  then have u0: "uncaught s = 0" using inv by (simp add: bulk_inv_def)
  define s0 where "s0 = s\<lparr>in_flight := filter (\<lambda>f. docIdx f \<noteq> k) (in_flight s)\<rparr>"
  obtain err res where reply: "db (docId f) (docOpts f) = (err, res)"
    by (cases "db (docId f) (docOpts f)")
  define s1 where "s1 = gotResult opts (docIdx f) (docId f)
      (if truthy err then Arr [Obj [(''error'', err)]] else formatResult f res) s0"
  have "s' = get_callback opts f (db (docId f) (docOpts f)) s0"
    using step fr by (simp add: fetch_done_def s0_def)
  then have s': "s' = (if uncaught s1 \<noteq> uncaught s0 then s1 else nextBatch opts s1)"
    unfolding get_callback_def reply prod.case Let_def s1_def [symmetric] .
  have i1: "bg_i s1 = bg_i s" by (simp add: s1_def bg_i_gotResult s0_def)
  show ?thesis
  proof (cases "uncaught s1 \<noteq> uncaught s0")
    case True
    then have "uncaught s' \<noteq> 0" using s' u0 by (simp add: s0_def)
    then have "numDone s' = numDocs opts"
      using inv' by (auto simp: bulk_inv_def split: if_splits)
    moreover have "numDone s' + length (in_flight s') = bg_i s'"
      using inv' by (simp add: bulk_inv_def)
    ultimately show ?thesis using lt by simp
  next
    case False
    then have eq: "s' = nextBatch opts s1" using s' by simp
    have "bg_i s1 \<le> numDocs opts" using inv i1 by (simp add: bulk_inv_def)
    then show ?thesis using lt unfolding eq by (rule nextBatch_progress)
  qed
qed

lemma fetches_done_snoc:
  "fetches_done db opts s (ks @ [k])
     = (case fetches_done db opts s ks of None \<Rightarrow> None | Some s' \<Rightarrow> fetch_done db opts s' k)"
  by (induction ks arbitrary: s) (auto split: option.splits)

lemma fetches_done_progress:
  assumes "fetches_done db opts (bulkGet opts) ks = Some s" and "bg_i s < numDocs opts"
  shows "in_flight s \<noteq> []"
proof (cases ks rule: rev_cases)
  case Nil
  then have "s = nextBatch opts \<lparr>bg_i = 0, numDone = 0, perDocResults = replicate (numDocs opts) None,
      in_flight = [], finished = [], uncaught = 0\<rparr>"
    using assms(1) by (simp add: bulkGet_def)
  then show ?thesis using assms(2) nextBatch_progress by simp
next
  case (snoc ks' k)
  then obtain s1 where s1: "fetches_done db opts (bulkGet opts) ks' = Some s1"
    and st: "fetch_done db opts s1 k = Some s"
    using assms(1) by (auto simp: fetches_done_snoc split: option.splits)
  have "bulk_inv db opts s1" using bulk_inv_bulkGet s1 by (rule bulk_inv_fetches_done)
  then show ?thesis using st assms(2) by (rule fetch_done_progress)
qed

text \<open>
  With at least one request, once no fetch is in flight the callback has been called,
  exactly once, provided every per-id result is an array, as it is whenever the store
  answers a fetch with \<open>open_revs\<close> by an array. A failed fetch gives such a result.
\<close>

lemma finished_when_all_done:
  assumes run: "fetches_done db opts (bulkGet opts) ks = Some s"
    and idle: "in_flight s = []" and some: "docs opts \<noteq> []"
    and arrays: "final_results db opts = Some rs"
  shows "finished s = [rs]"
proof -
  have inv: "bulk_inv db opts s" using bulk_inv_bulkGet run by (rule bulk_inv_fetches_done)
  have "length (docs opts) = sum_list (map (\<lambda>k. length (get_requests (requestsById opts)
      (allRequests opts ! k))) [0..<numDocs opts])"
    by (simp add: requests_total)
  then have n: "0 < numDocs opts" using some by (cases "numDocs opts") auto
  have "\<not> bg_i s < numDocs opts" using fetches_done_progress [OF run] idle by blast
  moreover have "bg_i s \<le> numDocs opts" "numDone s + length (in_flight s) = bg_i s"
    using inv by (simp_all add: bulk_inv_def)
  ultimately have "numDone s = numDocs opts" using idle by simp
  then show ?thesis using inv n arrays by (simp add: bulk_inv_def)
qed

text \<open>
  C5. With an empty list of requests \<open>bulkGet\<close> returns with no fetch in flight and the
  callback not called; no fetch can complete, so the callback is never called.
\<close>

theorem bulkGet_no_docs_never_finishes:
  "finished (bulkGet \<lparr>docs = [], globals = g\<rparr>) = []
   \<and> in_flight (bulkGet \<lparr>docs = [], globals = g\<rparr>) = []
   \<and> map_option finished
        (fetches_done db \<lparr>docs = [], globals = g\<rparr> (bulkGet \<lparr>docs = [], globals = g\<rparr>) ks)
       = (if ks = [] then Some [] else None)"
proof -
  define s0 where "s0 = bulkGet \<lparr>docs = [], globals = g\<rparr>"
  have s0: "finished s0 = []" "in_flight s0 = []"
    by (simp_all add: s0_def bulkGet_def nextBatch_def allRequests_def requestsById_def
          numDocs_def)
  have "fetches_done db \<lparr>docs = [], globals = g\<rparr> s0 ks = (if ks = [] then Some s0 else None)"
    using s0 by (cases ks) (simp_all add: fetch_done_def)
  then show ?thesis using s0 by (simp add: s0_def)
qed

subsection \<open>The requests of an id\<close>

text \<open>
  The grouping read off \<open>opts.docs\<close> itself: the requests for one id, in the order of
  \<open>opts.docs\<close>, and the distinct ids in the order in which they first occur.
\<close>

definition requests_of_id :: "bulk_opts \<Rightarrow> string \<Rightarrow> request list" where
  "requests_of_id opts ident = filter (\<lambda>r. req_id r = ident) (docs opts)"

fun first_seen :: "string list \<Rightarrow> string list" where
  "first_seen [] = []"
| "first_seen (x # xs) = x # first_seen (filter (\<lambda>y. y \<noteq> x) xs)"

lemma set_first_seen: "set (first_seen xs) = set xs"
  by (induction xs rule: first_seen.induct) auto

lemma map_of_add_to_group:
  "map_of (map (\<lambda>(k', g). if k' = ident then (k', g @ [r]) else (k', g)) m) k
     = map_option (\<lambda>g. if k = ident then g @ [r] else g) (map_of m k)"
  by (induction m) auto

lemma get_requests_add_request:
  "get_requests (add_request m r) k = get_requests m k @ (if req_id r = k then [r] else [])"
proof (cases "req_id r \<in> set (map fst m)")
  case True
  then obtain g where "map_of m (req_id r) = Some g"
    by (metis list.set_map map_of_eq_None_iff not_None_eq)
  then show ?thesis
    using True
    by (auto simp add: get_requests_def add_request_def map_of_add_to_group split: option.splits)
next
  case False
  then have "map_of m (req_id r) = None"
    by (simp add: map_of_eq_None_iff)
  then show ?thesis
    using False
    by (auto simp add: get_requests_def add_request_def map_add_def split: option.splits)
qed

lemma get_requests_foldl:
  "get_requests (foldl add_request m rs) k = get_requests m k @ filter (\<lambda>r. req_id r = k) rs"
  by (induction rs arbitrary: m) (simp_all add: get_requests_add_request)

lemma get_requests_requestsById:
  "get_requests (requestsById opts) ident = requests_of_id opts ident"
  using get_requests_foldl [of "[]" "docs opts" ident]
  by (simp add: requestsById_def requests_of_id_def get_requests_def)

lemma keys_foldl_add_request:
  "map fst (foldl add_request m rs)
     = map fst m @ first_seen (filter (\<lambda>k. k \<notin> set (map fst m)) (map req_id rs))"
proof (induction rs arbitrary: m)
  case Nil
  then show ?case by simp
next
  case (Cons r rs)
  show ?case
  proof (cases "req_id r \<in> set (map fst m)")
    case True
    then show ?thesis
      using Cons.IH [of "add_request m r"] by (simp add: add_request_keys)
  next
    case False
    have "filter (\<lambda>k. k \<notin> set (map fst m @ [req_id r])) (map req_id rs)
        = filter (\<lambda>y. y \<noteq> req_id r) (filter (\<lambda>k. k \<notin> set (map fst m)) (map req_id rs))"
      by (auto intro: filter_cong)
    then show ?thesis
      using False Cons.IH [of "add_request m r"] by (simp add: add_request_keys)
  qed
qed

lemma allRequests_first_seen: "allRequests opts = first_seen (map req_id (docs opts))"
  using keys_foldl_add_request [of "[]" "docs opts"]
  by (simp add: allRequests_def requestsById_def)

lemma requests_of_id_total:
  "sum_list (map (\<lambda>ident. length (requests_of_id opts ident)) (first_seen (map req_id (docs opts))))
     = length (docs opts)"
proof -
  have "map (\<lambda>ident. length (requests_of_id opts ident)) (allRequests opts)
      = map (\<lambda>k. length (get_requests (requestsById opts) (allRequests opts ! k))) [0..<numDocs opts]"
    by (intro nth_equalityI) (simp_all add: numDocs_def allRequests_def get_requests_requestsById)
  then show ?thesis
    using requests_total [of opts] by (simp add: allRequests_first_seen)
qed

subsection \<open>The options of a fetch\<close>

text \<open>
  What the fetch for an id is to be called with, read off \<open>opts\<close>: from the requests for
  the id, \<open>open_revs\<close> with their truthy revisions in order (absent when there is none)
  and \<open>atts_since\<close> and \<open>attachments\<close> of the first of them; then each of the five
  global options that \<open>opts\<close> has, in place of what the requests gave.
\<close>

definition requested_options :: "bulk_opts \<Rightarrow> string \<Rightarrow> obj" where
  "requested_options opts ident param =
     (if param = ''open_revs''
      then (if filter truthy (map req_rev (requests_of_id opts ident)) = [] then None
            else Some (Arr (filter truthy (map req_rev (requests_of_id opts ident)))))
      else if param = ''atts_since'' \<or> param = ''attachments''
      then (case requests_of_id opts ident of [] \<Rightarrow> None | r # _ \<Rightarrow> req_fields r param)
      else None)"

definition options_of_id :: "bulk_opts \<Rightarrow> string \<Rightarrow> obj" where
  "options_of_id opts ident param =
     (if param \<in> {''revs'', ''attachments'', ''binary'', ''ajax'', ''latest''}
      then (case globals opts param of
              None \<Rightarrow> requested_options opts ident param
            | Some v \<Rightarrow> Some v)
      else requested_options opts ident param)"

lemma foldl_globals:
  "foldl (\<lambda>d param. case g param of None \<Rightarrow> d | Some v \<Rightarrow> d(param \<mapsto> v)) d ps k
     = (if k \<in> set ps then (case g k of None \<Rightarrow> d k | Some v \<Rightarrow> Some v) else d k)"
  by (induction ps arbitrary: d) (auto split: option.splits)

lemma apply_globals_lookup:
  "apply_globals opts d k
     = (if k \<in> set global_params then (case globals opts k of None \<Rightarrow> d k | Some v \<Rightarrow> Some v)
        else d k)"
  unfolding apply_globals_def by (rule foldl_globals)

lemma pick_lookup: "pick object ps k = (if k \<in> set ps then object k else None)"
  unfolding pick_def by (simp add: foldl_globals split: option.splits)

lemma request_docOpts_lookup:
  "fst (request_docOpts (requests_of_id opts ident)) = requested_options opts ident"
proof
  fix param
  show "fst (request_docOpts (requests_of_id opts ident)) param = requested_options opts ident param"
    by (cases "requests_of_id opts ident")
      (auto simp add: request_docOpts_def requested_options_def pick_lookup Let_def)
qed

lemma docOpts_fetch_for:
  "docOpts (fetch_for opts k) = options_of_id opts (allRequests opts ! k)"
proof
  fix param
  have "docOpts (fetch_for opts k)
      = apply_globals opts (fst (request_docOpts (requests_of_id opts (allRequests opts ! k))))"
    by (simp add: fetch_for_def new_fetch_def make_docOpts_def get_requests_requestsById
          split: prod.splits)
  then have "docOpts (fetch_for opts k)
      = apply_globals opts (requested_options opts (allRequests opts ! k))"
    unfolding request_docOpts_lookup .
  then show "docOpts (fetch_for opts k) param = options_of_id opts (allRequests opts ! k) param"
    by (simp add: apply_globals_lookup global_params_def options_of_id_def)
qed

text \<open>
  C9 (amended). Every fetch of an invocation is for an id that has requests, and is called
  with \<open>open_revs\<close> from the requests for that id, with \<open>atts_since\<close> and
  \<open>attachments\<close> of the first request for it in \<open>opts.docs\<close>, and with each of
  \<open>revs\<close>, \<open>attachments\<close>, \<open>binary\<close>, \<open>ajax\<close> and \<open>latest\<close> that is present in
  \<open>opts\<close>, which replaces what the request gave. No other property of \<open>opts\<close> reaches
  the fetch; \<open>atts_since\<close> is not among the global options.
\<close>

theorem global_options_applied:
  assumes "fetches_done db opts (bulkGet opts) ks = Some s" and "f \<in> set (in_flight s)"
  shows "requests_of_id opts (docId f) \<noteq> []
       \<and> docOpts f param
           = (if param \<in> {''revs'', ''attachments'', ''binary'', ''ajax'', ''latest''}
              then (case globals opts param of
                      None \<Rightarrow> requested_options opts (docId f) param
                    | Some v \<Rightarrow> Some v)
              else requested_options opts (docId f) param)
       \<and> requested_options opts (docId f) ''atts_since''
           = req_fields (hd (requests_of_id opts (docId f))) ''atts_since''
       \<and> requested_options opts (docId f) ''attachments''
           = req_fields (hd (requests_of_id opts (docId f))) ''attachments''"
proof -
  have inv: "bulk_inv db opts s"
    using bulk_inv_bulkGet assms(1) by (rule bulk_inv_fetches_done)
  then have f: "f = fetch_for opts (docIdx f)" and k: "docIdx f < numDocs opts"
    using assms(2) by (auto simp add: bulk_inv_def)
  have ident: "docId f = allRequests opts ! docIdx f"
    by (subst f) (simp add: fetch_for_def)
  have ne: "requests_of_id opts (docId f) \<noteq> []"
    using requestsById_nonempty [OF k] by (simp add: ident get_requests_requestsById)
  have "docOpts f = options_of_id opts (docId f)"
    by (subst f) (simp add: docOpts_fetch_for ident [symmetric])
  then have o: "docOpts f param
           = (if param \<in> {''revs'', ''attachments'', ''binary'', ''ajax'', ''latest''}
              then (case globals opts param of
                      None \<Rightarrow> requested_options opts (docId f) param
                    | Some v \<Rightarrow> Some v)
              else requested_options opts (docId f) param)"
    by (simp add: options_of_id_def)
  have h: "requested_options opts (docId f) p = req_fields (hd (requests_of_id opts (docId f))) p"
    if "p = ''atts_since'' \<or> p = ''attachments''" for p
    using ne that by (cases "requests_of_id opts (docId f)") (auto simp add: requested_options_def)
  show ?thesis
    using ne o h by simp
qed

text \<open>
  Two requests for one id with their own \<open>atts_since\<close>, and global options \<open>revs\<close>,
  \<open>atts_since\<close> and \<open>conflicts\<close>: of the three only \<open>revs\<close> reaches the fetch, which
  has the \<open>atts_since\<close> of the first request and the revisions of both.
\<close>

definition two_requests :: bulk_opts where
  "two_requests =
     \<lparr>docs = [\<lparr>req_id = ''doc1'', req_rev = Str ''1-x'',
               req_fields = [''atts_since'' \<mapsto> Arr [Str ''1-a'']]\<rparr>,
              \<lparr>req_id = ''doc1'', req_rev = Str ''2-y'',
               req_fields = [''atts_since'' \<mapsto> Arr [Str ''2-b'']]\<rparr>],
      globals = [''revs'' \<mapsto> Bool True, ''atts_since'' \<mapsto> Arr [Str ''9-z''],
                 ''conflicts'' \<mapsto> Bool True]\<rparr>"

lemma in_flight_two_requests: "in_flight (bulkGet two_requests) = [fetch_for two_requests 0]"
proof -
  have n: "numDocs two_requests = 1"
    by (simp add: numDocs_def requestsById_def two_requests_def add_request_def)
  show ?thesis
    using nextBatch_eq [of "\<lparr>bg_i = 0, numDone = 0, perDocResults = replicate (numDocs two_requests) None,
        in_flight = [], finished = [], uncaught = 0\<rparr>" two_requests]
    by (simp add: bulkGet_def n MAX_NUM_CONCURRENT_REQUESTS_def)
qed

theorem global_options_applied_witness:
  "fetches_done found_store two_requests (bulkGet two_requests) [] = Some (bulkGet two_requests)
   \<and> fetch_for two_requests 0 \<in> set (in_flight (bulkGet two_requests))
   \<and> docId (fetch_for two_requests 0) = ''doc1''
   \<and> length (requests_of_id two_requests ''doc1'') = 2
   \<and> docOpts (fetch_for two_requests 0) ''revs'' = Some (Bool True)
   \<and> docOpts (fetch_for two_requests 0) ''conflicts'' = None
   \<and> docOpts (fetch_for two_requests 0) ''atts_since'' = Some (Arr [Str ''1-a''])
   \<and> docOpts (fetch_for two_requests 0) ''open_revs'' = Some (Arr [Str ''1-x'', Str ''2-y''])"
proof -
  have r: "fetches_done found_store two_requests (bulkGet two_requests) [] = Some (bulkGet two_requests)"
    by simp
  have m: "fetch_for two_requests 0 \<in> set (in_flight (bulkGet two_requests))"
    by (simp add: in_flight_two_requests)
  have i: "docId (fetch_for two_requests 0) = ''doc1''"
    by (simp add: fetch_for_def allRequests_first_seen two_requests_def)
  have g: "requests_of_id two_requests ''doc1'' = docs two_requests"
    by (simp add: requests_of_id_def two_requests_def)
  have d: "docs two_requests = [\<lparr>req_id = ''doc1'', req_rev = Str ''1-x'',
               req_fields = [''atts_since'' \<mapsto> Arr [Str ''1-a'']]\<rparr>,
              \<lparr>req_id = ''doc1'', req_rev = Str ''2-y'',
               req_fields = [''atts_since'' \<mapsto> Arr [Str ''2-b'']]\<rparr>]"
    by (simp add: two_requests_def)
  have gl: "globals two_requests = [''revs'' \<mapsto> Bool True, ''atts_since'' \<mapsto> Arr [Str ''9-z''],
                 ''conflicts'' \<mapsto> Bool True]"
    by (simp add: two_requests_def)
  show ?thesis
    using global_options_applied [OF r m, of "''revs''"]
      global_options_applied [OF r m, of "''conflicts''"]
      global_options_applied [OF r m, of "''atts_since''"]
      global_options_applied [OF r m, of "''open_revs''"]
      r m
    by (simp add: i g d gl requested_options_def)
qed

text \<open>
  C9 as stated fails for \<open>atts_since\<close>: present in \<open>opts\<close>, it does not reach the fetch,
  which keeps the \<open>atts_since\<close> of its first request.
\<close>

theorem global_options_applied_counterexample:
  "globals two_requests ''atts_since'' = Some (Arr [Str ''9-z''])
   \<and> map (\<lambda>f. docOpts f ''atts_since'') (in_flight (bulkGet two_requests))
       = [Some (Arr [Str ''1-a''])]
   \<and> map (\<lambda>f. docOpts f ''atts_since'') (in_flight (bulkGet two_requests))
       \<noteq> [globals two_requests ''atts_since'']"
proof -
  have a: "globals two_requests ''atts_since'' = Some (Arr [Str ''9-z''])"
    by (simp add: two_requests_def)
  have b: "map (\<lambda>f. docOpts f ''atts_since'') (in_flight (bulkGet two_requests))
       = [Some (Arr [Str ''1-a''])]"
    by code_simp
  show ?thesis unfolding b a by simp
qed

subsection \<open>The assembled results\<close>

text \<open>The elements of a \<open>docs\<close> array, and the entries of the output made of them.\<close>

definition infos :: "jsval \<Rightarrow> jsval list" where
  "infos v = (case v of Arr xs \<Rightarrow> xs | _ \<Rightarrow> [])"

definition entries :: "string \<Rightarrow> jsval \<Rightarrow> jsval list" where
  "entries ident v = map (\<lambda>info. Obj [(''id'', Str ident), (''docs'', Arr [info])]) (infos v)"

text \<open>
  The \<open>docs\<close> of the result for an id, read off \<open>opts\<close> and the store: one \<open>{error}\<close>
  when the fetch fails, one \<open>{ok}\<close> when no request for the id has a truthy \<open>rev\<close>, and
  otherwise what the store answers to the fetch with \<open>open_revs\<close>.
\<close>

definition result_of_id :: "store \<Rightarrow> bulk_opts \<Rightarrow> string \<Rightarrow> jsval" where
  "result_of_id db opts ident =
     (case db ident (options_of_id opts ident) of
        (err, res) \<Rightarrow>
          if truthy err then Arr [Obj [(''error'', err)]]
          else if filter truthy (map req_rev (requests_of_id opts ident)) = []
          then Arr [Obj [(''ok'', res)]]
          else res)"

lemma explode_Some: "explode p = Some es \<Longrightarrow> es = entries (pd_id p) (pd_docs p)"
  by (auto simp: explode_def entries_def infos_def split: jsval.splits)

lemma collapse_entries:
  assumes "collapse (map Some pds) [] = Some rs"
  shows "rs = concat (map (\<lambda>p. entries (pd_id p) (pd_docs p)) pds)"
proof -
  have all: "\<forall>p \<in> set pds. explode p \<noteq> None"
    using assms by (simp add: collapse_all_filled split: if_splits)
  have "the (explode p) = entries (pd_id p) (pd_docs p)" if mem: "p \<in> set pds" for p
  proof -
    obtain es where es: "explode p = Some es" using all mem by auto
    then show ?thesis using explode_Some [OF es] by simp
  qed
  then have eq: "map (\<lambda>p. the (explode p)) pds = map (\<lambda>p. entries (pd_id p) (pd_docs p)) pds"
    by (intro map_cong refl)
  have "rs = concat (map (\<lambda>p. the (explode p)) pds)"
    using assms all by (simp add: collapse_all_filled)
  then show ?thesis unfolding eq .
qed

lemma map_nth_fun: "map (\<lambda>k. g (xs ! k)) [0..<length xs] = map g xs"
  by (intro nth_equalityI) simp_all

lemma pd_id_per_doc_result: "pd_id (per_doc_result db opts k) = allRequests opts ! k"
  by (simp add: per_doc_result_def Let_def fetch_for_def split: prod.splits)

lemma pd_docs_per_doc_result:
  "pd_docs (per_doc_result db opts k) = result_of_id db opts (allRequests opts ! k)"
proof -
  define rs where "rs = requests_of_id opts (allRequests opts ! k)"
  have fmt: "formatResult (fetch_for opts k)
      = (if filter truthy (map req_rev rs) = [] then formatResultForOpenRevsGet else identityFunction)"
    by (simp add: fetch_for_def new_fetch_def make_docOpts_def request_docOpts_def Let_def rs_def
          get_requests_requestsById split: prod.splits)
  have ident: "docId (fetch_for opts k) = allRequests opts ! k"
    by (simp add: fetch_for_def)
  obtain err res where r: "db (allRequests opts ! k) (options_of_id opts (allRequests opts ! k)) = (err, res)"
    by (cases "db (allRequests opts ! k) (options_of_id opts (allRequests opts ! k))")
  show ?thesis
    unfolding per_doc_result_def result_of_id_def Let_def ident docOpts_fetch_for r rs_def [symmetric]
    by (simp add: fmt formatResultForOpenRevsGet_def identityFunction_def)
qed

text \<open>
  C2 (amended). When the callback of an invocation is called, it is called once, with one
  entry per element of each per-id result, for the distinct ids in the order in which they
  first occur in \<open>opts.docs\<close>, each entry carrying that id. The count of entries is the
  total count of those elements: one for an id whose fetch failed or whose requests have no
  truthy \<open>rev\<close>, otherwise as many as the store returned. It is the count of the requests
  when every per-id result has as many elements as its id has requests in \<open>opts.docs\<close>.
\<close>

theorem bulkGet_output_entries:
  assumes "fetches_done db opts (bulkGet opts) ks = Some s" and "results \<in> set (finished s)"
  shows "finished s = [results]
       \<and> results = concat (map (\<lambda>ident. entries ident (result_of_id db opts ident))
                               (first_seen (map req_id (docs opts))))
       \<and> length results
           = sum_list (map (\<lambda>ident. length (infos (result_of_id db opts ident)))
                          (first_seen (map req_id (docs opts))))
       \<and> ((\<forall>ident \<in> set (map req_id (docs opts)).
              length (infos (result_of_id db opts ident)) = length (requests_of_id opts ident))
            \<longrightarrow> length results = length (docs opts))"
proof -
  have inv: "bulk_inv db opts s"
    using bulk_inv_bulkGet assms(1) by (rule bulk_inv_fetches_done)
  have fin: "finished s
      = (if 0 < numDocs opts \<and> numDone s = numDocs opts
         then (case final_results db opts of None \<Rightarrow> [] | Some rs \<Rightarrow> [rs]) else [])"
    using inv by (simp add: bulk_inv_def)
  have ne: "finished s \<noteq> []" using assms(2) by auto
  then have all_done: "0 < numDocs opts \<and> numDone s = numDocs opts"
    using fin by (simp split: if_splits)
  then have fin': "finished s = (case final_results db opts of None \<Rightarrow> [] | Some rs \<Rightarrow> [rs])"
    using fin by simp
  then obtain rs where rs: "final_results db opts = Some rs" "finished s = [rs]"
    using ne by (cases "final_results db opts") simp_all
  then have "rs = results" using assms(2) by simp
  then have fr: "final_results db opts = Some results" and one: "finished s = [results]"
    using rs by simp_all
  have "collapse (map Some (map (per_doc_result db opts) [0..<numDocs opts])) [] = Some results"
    using fr by (simp add: final_results_def comp_def)
  then have "results = concat (map (\<lambda>p. entries (pd_id p) (pd_docs p))
      (map (per_doc_result db opts) [0..<numDocs opts]))"
    by (rule collapse_entries)
  then have "results = concat (map (\<lambda>k. entries (allRequests opts ! k)
      (result_of_id db opts (allRequests opts ! k))) [0..<length (allRequests opts)])"
    by (simp add: comp_def pd_id_per_doc_result pd_docs_per_doc_result numDocs_def allRequests_def)
  then have "results = concat (map (\<lambda>ident. entries ident (result_of_id db opts ident))
      (allRequests opts))"
    using map_nth_fun [of "\<lambda>ident. entries ident (result_of_id db opts ident)" "allRequests opts"]
    by simp
  then have res: "results = concat (map (\<lambda>ident. entries ident (result_of_id db opts ident))
      (first_seen (map req_id (docs opts))))"
    by (simp add: allRequests_first_seen)
  have len: "length results
      = sum_list (map (\<lambda>ident. length (infos (result_of_id db opts ident)))
          (first_seen (map req_id (docs opts))))"
    unfolding res by (simp add: length_concat comp_def entries_def)
  have cnt: "length results = length (docs opts)"
    if "\<forall>ident \<in> set (map req_id (docs opts)).
          length (infos (result_of_id db opts ident)) = length (requests_of_id opts ident)"
  proof -
    have m: "map (\<lambda>ident. length (infos (result_of_id db opts ident)))
          (first_seen (map req_id (docs opts)))
        = map (\<lambda>ident. length (requests_of_id opts ident)) (first_seen (map req_id (docs opts)))"
      using that by (intro map_cong refl) (auto simp add: set_first_seen)
    show ?thesis unfolding len m by (rule requests_of_id_total)
  qed
  show ?thesis
    using one res len cnt by blast
qed

text \<open>
  Two ids, the first of them requested with two revisions (scenario B) and the second
  requested in between without one; the fetch of the second id completes first. The output
  has the two entries of the first id and then the entry of the second.
\<close>

definition two_revs :: bulk_opts where
  "two_revs =
     \<lparr>docs = [\<lparr>req_id = ''doc2'', req_rev = Str ''1-a'', req_fields = Map.empty\<rparr>,
              \<lparr>req_id = ''doc1'', req_rev = Undefined, req_fields = Map.empty\<rparr>,
              \<lparr>req_id = ''doc2'', req_rev = Str ''2-b'', req_fields = Map.empty\<rparr>],
      globals = Map.empty\<rparr>"

definition revs_store :: store where
  "revs_store k d =
     (case d ''open_revs'' of
        Some (Arr revs) \<Rightarrow> (Null, Arr (map (\<lambda>r. Obj [(''ok'', Obj [(''_id'', Str k), (''_rev'', r)])]) revs))
      | _ \<Rightarrow> (Null, Obj [(''_id'', Str k)]))"

theorem bulkGet_output_entries_witness:
  "map_option finished (fetches_done revs_store two_revs (bulkGet two_revs) [1, 0])
     = Some [[Obj [(''id'', Str ''doc2''),
                   (''docs'', Arr [Obj [(''ok'', Obj [(''_id'', Str ''doc2''), (''_rev'', Str ''1-a'')])]])],
              Obj [(''id'', Str ''doc2''),
                   (''docs'', Arr [Obj [(''ok'', Obj [(''_id'', Str ''doc2''), (''_rev'', Str ''2-b'')])]])],
              Obj [(''id'', Str ''doc1''),
                   (''docs'', Arr [Obj [(''ok'', Obj [(''_id'', Str ''doc1'')])]])]]]
   \<and> first_seen (map req_id (docs two_revs)) = [''doc2'', ''doc1'']
   \<and> length (infos (result_of_id revs_store two_revs ''doc2'')) = 2
   \<and> length (requests_of_id two_revs ''doc2'') = 2
   \<and> length (infos (result_of_id revs_store two_revs ''doc1'')) = 1
   \<and> length (requests_of_id two_revs ''doc1'') = 1
   \<and> length (docs two_revs) = 3"
proof -
  define rs where "rs = [Obj [(''id'', Str ''doc2''),
                   (''docs'', Arr [Obj [(''ok'', Obj [(''_id'', Str ''doc2''), (''_rev'', Str ''1-a'')])]])],
              Obj [(''id'', Str ''doc2''),
                   (''docs'', Arr [Obj [(''ok'', Obj [(''_id'', Str ''doc2''), (''_rev'', Str ''2-b'')])]])],
              Obj [(''id'', Str ''doc1''),
                   (''docs'', Arr [Obj [(''ok'', Obj [(''_id'', Str ''doc1'')])]])]]"
  have ev: "map_option finished (fetches_done revs_store two_revs (bulkGet two_revs) [1, 0]) = Some [rs]"
    unfolding rs_def by code_simp
  then obtain s where s: "fetches_done revs_store two_revs (bulkGet two_revs) [1, 0] = Some s"
    and f: "finished s = [rs]"
    by auto
  have m: "rs \<in> set (finished s)" using f by simp
  have ids: "first_seen (map req_id (docs two_revs)) = [''doc2'', ''doc1'']"
    by (simp add: two_revs_def)
  have a: "length (infos (result_of_id revs_store two_revs ''doc2'')) = 2"
    by (simp add: result_of_id_def revs_store_def options_of_id_def requested_options_def
          requests_of_id_def two_revs_def infos_def)
  have b: "length (requests_of_id two_revs ''doc2'') = 2"
    by (simp add: requests_of_id_def two_revs_def)
  have a': "length (infos (result_of_id revs_store two_revs ''doc1'')) = 1"
    by (simp add: result_of_id_def revs_store_def options_of_id_def requested_options_def
          requests_of_id_def two_revs_def infos_def)
  have b': "length (requests_of_id two_revs ''doc1'') = 1"
    by (simp add: requests_of_id_def two_revs_def)
  have c: "length (docs two_revs) = 3" by (simp add: two_revs_def)
  have d: "set (map req_id (docs two_revs)) = {''doc2'', ''doc1''}"
    by (auto simp add: two_revs_def)
  show ?thesis
    using bulkGet_output_entries [OF s m] ev ids a b a' b' c d by (simp add: rs_def)
qed

text \<open>
  C2 as stated fails: one id requested twice without a revision is fetched once, and the
  output has one entry for the two requests.
\<close>

definition same_id_twice :: bulk_opts where
  "same_id_twice = \<lparr>docs = [request_for ''doc1'', request_for ''doc1''], globals = Map.empty\<rparr>"

theorem bulkGet_output_entries_counterexample:
  "map_option finished (fetches_done found_store same_id_twice (bulkGet same_id_twice) [0])
     = Some [[Obj [(''id'', Str ''doc1''), (''docs'', Arr [Obj [(''ok'', Obj [(''_id'', Str ''doc1'')])]])]]]
   \<and> length (docs same_id_twice) = 2
   \<and> map_option (map length \<circ> finished)
         (fetches_done found_store same_id_twice (bulkGet same_id_twice) [0])
       \<noteq> Some [length (docs same_id_twice)]"
proof -
  have a: "map_option finished (fetches_done found_store same_id_twice (bulkGet same_id_twice) [0])
     = Some [[Obj [(''id'', Str ''doc1''), (''docs'', Arr [Obj [(''ok'', Obj [(''_id'', Str ''doc1'')])]])]]]"
    by code_simp
  have b: "length (docs same_id_twice) = 2" by code_simp
  have c: "map_option (map length \<circ> finished)
         (fetches_done found_store same_id_twice (bulkGet same_id_twice) [0]) = Some [1]"
    by code_simp
  show ?thesis unfolding c using a b by simp
qed

end
